theory Spec2Isabelle
  imports Complex_Main "HOL-Library.Word" "HOL-Library.AList"
begin

section \<open>Data model of \<open>couckoo.py\<close>\<close>

text \<open>
  The engine is the class \<open>LSHProcessor\<close>. A signature is a one-dimensional NumPy array
  of bits, modelled as a \<open>bool list\<close>; \<open>np.packbits\<close> turns it into an array of
  \<open>uint8\<close>, modelled as a list of 8-bit words. Python dictionaries keep insertion
  order, and the order decides both the order of the bucket walk and the order in which
  fresh labels are drawn, so every dictionary is an association list; \<open>AList.update\<close>
  replaces the value of a present key in place and appends an absent key, as an assignment
  \<open>d[k] = v\<close> does. Similarity scores and the threshold are Python floats; they are
  modelled as exact rationals.
\<close>

type_synonym byte = "8 word"
type_synonym signature = "bool list"
type_synonym image_id = string

datatype error = ZeroDivisionError | ValueError | IndexError | KeyError | OSError

datatype log_entry =
    SignaturesNotFound image_id image_id
  | DirectoryNotFound string
  | ErrorLogged error

record lsh =
  hash_size :: int
  bands :: int
  rows :: int
  hash_buckets_list :: "(bool list \<times> image_id list) list list"
  signatures :: "(image_id \<times> byte list) list"
  labels :: "(image_id \<times> int) list"
  label_counter :: int
  similarity_scores :: "(image_id \<times> image_id \<times> rat) list"
  log :: "log_entry list"

subsection \<open>\<open>np.packbits\<close> and \<open>np.unpackbits\<close>\<close>

text \<open>
  \<open>np.packbits\<close> reads the bits in groups of eight, most significant bit first, and pads
  the last group with zeros; \<open>np.unpackbits\<close> writes eight bits for every byte.
\<close>

definition nat_of_bits :: "bool list \<Rightarrow> nat" where
  "nat_of_bits bs = foldl (\<lambda>acc b. 2 * acc + (if b then 1 else 0)) 0 bs"

fun bits_of_nat :: "nat \<Rightarrow> nat \<Rightarrow> bool list" where
  "bits_of_nat 0 n = []"
| "bits_of_nat (Suc k) n = bits_of_nat k (n div 2) @ [odd n]"

definition pack_byte :: "bool list \<Rightarrow> byte" where
  "pack_byte bs = of_nat (nat_of_bits (take 8 bs @ replicate (8 - length (take 8 bs)) False))"

definition unpack_byte :: "byte \<Rightarrow> bool list" where
  "unpack_byte w = bits_of_nat 8 (unat w)"

function packbits :: "bool list \<Rightarrow> byte list" where
  "packbits bs = (if bs = [] then [] else pack_byte bs # packbits (drop 8 bs))"
  by pat_completeness auto
termination
  by (relation "measure length") auto

declare packbits.simps [simp del]

definition unpackbits :: "byte list \<Rightarrow> bool list" where
  "unpackbits ws = concat (map unpack_byte ws)"

text \<open>The number of positions at which two arrays of one length differ
  (\<open>np.count_nonzero(x != y)\<close>).\<close>

definition count_differing :: "bool list \<Rightarrow> bool list \<Rightarrow> nat" where
  "count_differing xs ys = length (filter (\<lambda>(x, y). x \<noteq> y) (zip xs ys))"

subsection \<open>Python slicing and dictionaries\<close>

text \<open>\<open>xs[a:b]\<close>: a negative index counts from the end, and both ends are clamped.\<close>

definition slice_index :: "int \<Rightarrow> int \<Rightarrow> nat" where
  "slice_index n k = nat (if k < 0 then max 0 (k + n) else min k n)"

definition py_slice :: "int \<Rightarrow> int \<Rightarrow> 'a list \<Rightarrow> 'a list" where
  "py_slice a b xs =
     (let n = int (length xs)
      in drop (slice_index n a) (take (slice_index n b) xs))"

definition has_key :: "'k \<Rightarrow> ('k \<times> 'v) list \<Rightarrow> bool" where
  "has_key k d = (map_of d k \<noteq> None)"

section \<open>The engine: \<open>LSHProcessor\<close>\<close>

subsection \<open>\<open>__init__\<close>\<close>

text \<open>\<open>hash_size**2 // bands\<close> raises \<open>ZeroDivisionError\<close> when \<open>bands\<close> is zero;
  \<open>range(bands)\<close> is empty when \<open>bands\<close> is negative.\<close>

definition lsh_init :: "int \<Rightarrow> int \<Rightarrow> error + lsh" where
  "lsh_init hs b =
     (if b = 0 then Inl ZeroDivisionError
      else Inr \<lparr>hash_size = hs, bands = b, rows = hs ^ 2 div b,
                hash_buckets_list = replicate (nat b) [],
                signatures = [], labels = [], label_counter = 0,
                similarity_scores = [], log = []\<rparr>)"

subsection \<open>\<open>add_signature\<close>\<close>

text \<open>Lines 51 to 53: the bucket of the key is created empty when the key is new, then the
  file path is appended to it.\<close>

definition bucket_append ::
  "bool list \<Rightarrow> image_id \<Rightarrow> (bool list \<times> image_id list) list
     \<Rightarrow> (bool list \<times> image_id list) list" where
  "bucket_append key file_path hash_buckets =
     AList.update key
       ((case map_of hash_buckets key of None \<Rightarrow> [] | Some matched \<Rightarrow> matched) @ [file_path])
       hash_buckets"

text \<open>The loop \<open>for i in range(self.bands)\<close>; \<open>self.hash_buckets_list[i]\<close> raises
  \<open>IndexError\<close> past the end of the list.\<close>

fun add_bands :: "lsh \<Rightarrow> image_id \<Rightarrow> signature \<Rightarrow> nat list \<Rightarrow> error + lsh" where
  "add_bands s file_path sg [] = Inr s"
| "add_bands s file_path sg (i # is) =
     (if i < length (hash_buckets_list s)
      then add_bands
             (s\<lparr>hash_buckets_list :=
                  (hash_buckets_list s)
                    [i := bucket_append
                            (py_slice (int i * rows s) ((int i + 1) * rows s) sg)
                            file_path (hash_buckets_list s ! i)]\<rparr>)
             file_path sg is
      else Inl IndexError)"

definition add_signature :: "lsh \<Rightarrow> image_id \<Rightarrow> signature option \<Rightarrow> error + lsh" where
  "add_signature s file_path sg_opt =
     (case sg_opt of
        None \<Rightarrow> Inr s
      | Some sg \<Rightarrow>
          add_bands (s\<lparr>signatures := AList.update file_path (packbits sg) (signatures s)\<rparr>)
            file_path sg [0..<nat (bands s)])"

subsection \<open>\<open>calculate_similarity\<close>\<close>

text \<open>
  The two lookups come first and in this order, so a missing id is a \<open>KeyError\<close> before
  anything else can fail; it is caught, logged, and the score is \<open>0.0\<close>. With both ids
  present, \<open>!=\<close> on arrays of different lengths raises \<open>ValueError\<close> (NumPy from 1.25 on),
  and the division raises \<open>ZeroDivisionError\<close> when \<open>hash_size\<close> is zero; neither is
  caught here.
\<close>

definition calculate_similarity ::
  "lsh \<Rightarrow> image_id \<times> image_id \<Rightarrow> error + ((image_id \<times> image_id \<times> rat) \<times> lsh)" where
  "calculate_similarity s pair =
     (case pair of (img_a, img_b) \<Rightarrow>
        (case map_of (signatures s) img_a of
           None \<Rightarrow> Inr ((img_a, img_b, 0), s\<lparr>log := log s @ [SignaturesNotFound img_a img_b]\<rparr>)
         | Some packed_a \<Rightarrow>
             (case map_of (signatures s) img_b of
                None \<Rightarrow>
                  Inr ((img_a, img_b, 0), s\<lparr>log := log s @ [SignaturesNotFound img_a img_b]\<rparr>)
              | Some packed_b \<Rightarrow>
                  (if length (unpackbits packed_a) \<noteq> length (unpackbits packed_b)
                   then Inl ValueError
                   else if hash_size s ^ 2 = 0 then Inl ZeroDivisionError
                   else Inr ((img_a, img_b,
                              of_int (hash_size s ^ 2
                                      - int (count_differing (unpackbits packed_a)
                                               (unpackbits packed_b)))
                              / of_int (hash_size s ^ 2)), s)))))"

text \<open>What the scorer reads for an id: \<open>np.unpackbits(self.signatures[id])\<close>.\<close>

definition stored_bits :: "lsh \<Rightarrow> image_id \<Rightarrow> bool list option" where
  "stored_bits s file_path = map_option unpackbits (map_of (signatures s) file_path)"

subsection \<open>\<open>process_similarities\<close>\<close>

text \<open>Lines 95 to 105, the body of the innermost loop after the score is known.\<close>

definition label_pair :: "rat \<Rightarrow> bool \<Rightarrow> image_id \<times> image_id \<times> rat \<Rightarrow> lsh \<Rightarrow> error + lsh" where
  "label_pair threshold collect_scores scored s =
     (case scored of (img_a, img_b, similarity) \<Rightarrow>
        if similarity \<ge> threshold then
          (let s1 = (if \<not> has_key img_a (labels s)
                     then s\<lparr>labels := AList.update img_a (label_counter s) (labels s),
                            label_counter := label_counter s + 1\<rparr>
                     else s)
           in case (if \<not> has_key img_b (labels s1)
                    then (case map_of (labels s1) img_a of
                            None \<Rightarrow> Inl KeyError
                          | Some label_a \<Rightarrow>
                              Inr (s1\<lparr>labels := AList.update img_b label_a (labels s1)\<rparr>))
                    else Inr s1) of
                Inl e \<Rightarrow> Inl e
              | Inr s2 \<Rightarrow>
                  Inr (if collect_scores
                       then s2\<lparr>similarity_scores :=
                                 similarity_scores s2 @ [(img_a, img_b, similarity)]\<rparr>
                       else s2))
        else Inr s)"

text \<open>The loop over \<open>zip(matched_imgs, matched_imgs[1:])\<close>.\<close>

fun walk_pairs :: "rat \<Rightarrow> bool \<Rightarrow> lsh \<Rightarrow> (image_id \<times> image_id) list \<Rightarrow> error + lsh" where
  "walk_pairs threshold collect_scores s [] = Inr s"
| "walk_pairs threshold collect_scores s (pair # pairs) =
     (case calculate_similarity s pair of
        Inl e \<Rightarrow> Inl e
      | Inr (scored, s1) \<Rightarrow>
          (case label_pair threshold collect_scores scored s1 of
             Inl e \<Rightarrow> Inl e
           | Inr s2 \<Rightarrow> walk_pairs threshold collect_scores s2 pairs))"

text \<open>The loop over \<open>hash_buckets.values()\<close>, in the insertion order of the keys.\<close>

fun walk_buckets ::
  "rat \<Rightarrow> bool \<Rightarrow> lsh \<Rightarrow> (bool list \<times> image_id list) list \<Rightarrow> error + lsh" where
  "walk_buckets threshold collect_scores s [] = Inr s"
| "walk_buckets threshold collect_scores s ((key, matched_imgs) # buckets) =
     (if length matched_imgs > 1
      then (case walk_pairs threshold collect_scores s (zip matched_imgs (tl matched_imgs)) of
              Inl e \<Rightarrow> Inl e
            | Inr s1 \<Rightarrow> walk_buckets threshold collect_scores s1 buckets)
      else walk_buckets threshold collect_scores s buckets)"

text \<open>The loop over \<open>self.hash_buckets_list\<close>.\<close>

fun walk_bands ::
  "rat \<Rightarrow> bool \<Rightarrow> lsh \<Rightarrow> (bool list \<times> image_id list) list list \<Rightarrow> error + lsh" where
  "walk_bands threshold collect_scores s [] = Inr s"
| "walk_bands threshold collect_scores s (hash_buckets # rest) =
     (case walk_buckets threshold collect_scores s hash_buckets of
        Inl e \<Rightarrow> Inl e
      | Inr s1 \<Rightarrow> walk_bands threshold collect_scores s1 rest)"

definition process_similarities :: "rat \<Rightarrow> bool \<Rightarrow> lsh \<Rightarrow> error + lsh" where
  "process_similarities threshold collect_scores s =
     walk_bands threshold collect_scores s (hash_buckets_list s)"

subsection \<open>\<open>_assign_labels_remaining_images\<close>, \<open>assign_labels\<close>, \<open>get_similarity_scores\<close>\<close>

definition label_remaining :: "image_id \<Rightarrow> lsh \<Rightarrow> lsh" where
  "label_remaining file_path s =
     (if \<not> has_key file_path (labels s)
      then s\<lparr>labels := AList.update file_path (label_counter s) (labels s),
             label_counter := label_counter s + 1\<rparr>
      else s)"

fun label_all_remaining :: "lsh \<Rightarrow> image_id list \<Rightarrow> lsh" where
  "label_all_remaining s [] = s"
| "label_all_remaining s (file_path # file_paths) =
     label_all_remaining (label_remaining file_path s) file_paths"

definition assign_labels_remaining_images :: "lsh \<Rightarrow> lsh" where
  "assign_labels_remaining_images s = label_all_remaining s (map fst (signatures s))"

definition assign_labels :: "rat \<Rightarrow> lsh \<Rightarrow> error + ((image_id \<times> int) list \<times> lsh)" where
  "assign_labels threshold s =
     (case process_similarities threshold False s of
        Inl e \<Rightarrow> Inl e
      | Inr s1 \<Rightarrow>
          (let s2 = assign_labels_remaining_images s1 in Inr (labels s2, s2)))"

definition get_similarity_scores ::
  "rat \<Rightarrow> lsh \<Rightarrow> error + ((image_id \<times> image_id \<times> rat) list \<times> lsh)" where
  "get_similarity_scores threshold s =
     (case process_similarities threshold True s of
        Inl e \<Rightarrow> Inl e
      | Inr s1 \<Rightarrow> Inr (similarity_scores s1, s1))"

section \<open>The helper functions\<close>

text \<open>
  The file system is a parameter: what \<open>os.listdir\<close> answers for a path. The class
  \<open>ImageProcessor\<close> is not part of this file; its method \<open>calculate_signature\<close> is the
  parameter \<open>calculate_signature\<close> below, which answers \<open>None\<close> for an image it cannot
  read, and its constructor is taken to return. \<open>str.lower\<close> is modelled on the ASCII
  letters, and \<open>os.path.join\<close> as on POSIX.
\<close>

datatype listing = NoSuchDirectory | ListingFails | Entries "string list"

definition lower_char :: "char \<Rightarrow> char" where
  "lower_char c =
     (let n = (of_char c :: nat) in if 65 \<le> n \<and> n \<le> 90 then char_of (n + 32) else c)"

definition endswith :: "string \<Rightarrow> string \<Rightarrow> bool" where
  "endswith s suffix =
     (length suffix \<le> length s \<and> drop (length s - length suffix) s = suffix)"

definition is_image_name :: "string \<Rightarrow> bool" where
  "is_image_name f =
     (let l = map lower_char f
      in endswith l ''.png'' \<or> endswith l ''.jpg'' \<or> endswith l ''.jpeg'')"

definition path_join :: "string \<Rightarrow> string \<Rightarrow> string" where
  "path_join d f =
     (if f \<noteq> [] \<and> hd f = CHR ''/'' then f
      else if d = [] \<or> last d = CHR ''/'' then d @ f
      else d @ ''/'' @ f)"

definition get_image_files ::
  "(string \<Rightarrow> listing) \<Rightarrow> string \<Rightarrow> (error \<times> log_entry list) + string list" where
  "get_image_files listdir input_dir =
     (case listdir input_dir of
        NoSuchDirectory \<Rightarrow> Inl (ValueError, [DirectoryNotFound input_dir])
      | ListingFails \<Rightarrow> Inl (OSError, [])
      | Entries fs \<Rightarrow> Inr (map (path_join input_dir) (filter is_image_name fs)))"

fun add_all :: "lsh \<Rightarrow> (image_id \<times> signature option) list \<Rightarrow> error + lsh" where
  "add_all s [] = Inr s"
| "add_all s ((file_path, sg) # rest) =
     (case add_signature s file_path sg of
        Inl e \<Rightarrow> Inl e
      | Inr s1 \<Rightarrow> add_all s1 rest)"

definition process_images ::
  "int \<Rightarrow> int \<Rightarrow> (string \<Rightarrow> signature option) \<Rightarrow> string list \<Rightarrow> error + lsh" where
  "process_images hs b calculate_signature file_list =
     (case lsh_init hs b of
        Inl e \<Rightarrow> Inl e
      | Inr s \<Rightarrow> add_all s (map (\<lambda>file_path. (file_path, calculate_signature file_path)) file_list))"

text \<open>
  \<open>find_duplicates\<close>: the body of the \<open>try\<close> is \<open>find_duplicates_body\<close>; a \<open>ValueError\<close>
  from anywhere inside it is caught, logged, and answered with an empty mapping and an
  empty score list. Any other exception leaves the function.
\<close>

definition find_duplicates_body ::
  "(string \<Rightarrow> listing) \<Rightarrow> (string \<Rightarrow> signature option) \<Rightarrow> string \<Rightarrow> rat \<Rightarrow> int \<Rightarrow> int \<Rightarrow> bool
     \<Rightarrow> (error \<times> log_entry list)
         + (((image_id \<times> int) list \<times> (image_id \<times> image_id \<times> rat) list) \<times> log_entry list)" where
  "find_duplicates_body listdir calculate_signature input_dir threshold hs b gen_scores =
     (case get_image_files listdir input_dir of
        Inl el \<Rightarrow> Inl el
      | Inr file_list \<Rightarrow>
          if file_list = [] then Inl (ValueError, [])
          else
            (case process_images hs b calculate_signature file_list of
               Inl e \<Rightarrow> Inl (e, [])
             | Inr lsh_processor \<Rightarrow>
                 (case assign_labels threshold lsh_processor of
                    Inl e \<Rightarrow> Inl (e, [])
                  | Inr (lbls, s1) \<Rightarrow>
                      if gen_scores
                      then (case get_similarity_scores threshold s1 of
                              Inl e \<Rightarrow> Inl (e, [])
                            | Inr (scores, s2) \<Rightarrow> Inr ((labels s2, scores), log s2))
                      else Inr ((lbls, []), log s1))))"

definition find_duplicates ::
  "(string \<Rightarrow> listing) \<Rightarrow> (string \<Rightarrow> signature option) \<Rightarrow> string \<Rightarrow> rat \<Rightarrow> int \<Rightarrow> int \<Rightarrow> bool
     \<Rightarrow> error
         + (((image_id \<times> int) list \<times> (image_id \<times> image_id \<times> rat) list) \<times> log_entry list)" where
  "find_duplicates listdir calculate_signature input_dir threshold hs b gen_scores =
     (case find_duplicates_body listdir calculate_signature input_dir threshold hs b gen_scores of
        Inl (e, lg) \<Rightarrow>
          (if e = ValueError then Inr (([], []), lg @ [ErrorLogged ValueError]) else Inl e)
      | Inr r \<Rightarrow> Inr r)"

section \<open>Relations between states of a run\<close>

text \<open>The part of the state that the label resolution only reads.\<close>

definition same_store :: "lsh \<Rightarrow> lsh \<Rightarrow> bool" where
  "same_store s t \<longleftrightarrow>
     hash_size t = hash_size s \<and> bands t = bands s \<and> rows t = rows s
     \<and> hash_buckets_list t = hash_buckets_list s \<and> signatures t = signatures s"

text \<open>Every label in use is below the counter.\<close>

definition labels_below_counter :: "lsh \<Rightarrow> bool" where
  "labels_below_counter s \<longleftrightarrow> (\<forall>x l. map_of (labels s) x = Some l \<longrightarrow> l < label_counter s)"

text \<open>
  How the label mapping of a later state \<open>t\<close> relates to that of an earlier state \<open>s\<close>:
  labels of \<open>s\<close> are kept, and a label given since is one already in use in \<open>s\<close> or is at
  least the counter of \<open>s\<close>.
\<close>

definition label_extension :: "lsh \<Rightarrow> lsh \<Rightarrow> bool" where
  "label_extension s t \<longleftrightarrow>
     same_store s t
     \<and> label_counter s \<le> label_counter t
     \<and> (\<forall>x l. map_of (labels s) x = Some l \<longrightarrow> map_of (labels t) x = Some l)
     \<and> (\<forall>x l. map_of (labels s) x = None \<longrightarrow> map_of (labels t) x = Some l \<longrightarrow>
            (\<exists>y. map_of (labels s) y = Some l) \<or> label_counter s \<le> l)
     \<and> (labels_below_counter s \<longrightarrow> labels_below_counter t)
     \<and> (distinct (map fst (labels s)) \<longrightarrow> distinct (map fst (labels t)))"

text \<open>
  \<open>later s t\<close>: the state \<open>t\<close> is reached from \<open>s\<close> by running a stretch of the loops of
  \<open>process_similarities\<close> and \<open>_assign_labels_remaining_images\<close>.
\<close>

inductive later :: "lsh \<Rightarrow> lsh \<Rightarrow> bool" where
  later_pairs: "walk_pairs threshold collect_scores s pairs = Inr t \<Longrightarrow> later s t"
| later_buckets: "walk_buckets threshold collect_scores s buckets = Inr t \<Longrightarrow> later s t"
| later_bands: "walk_bands threshold collect_scores s bs = Inr t \<Longrightarrow> later s t"
| later_remaining: "later s (label_all_remaining s file_paths)"
| later_trans: "later s t \<Longrightarrow> later t u \<Longrightarrow> later s u"

section \<open>An example run\<close>

text \<open>
  Three images with four-bit signatures, \<open>hash_size = 2\<close> and two bands of two rows:
  the processor after \<open>__init__\<close>, after the three insertions, after the walk of the first
  band with threshold \<open>1/2\<close>, and after \<open>assign_labels\<close>.
\<close>

definition example_adds :: "(image_id \<times> signature option) list" where
  "example_adds =
     [(''a'', Some [False, False, True, True]),
      (''b'', Some [True, True, True, True]),
      (''c'', Some [True, True, False, False])]"

definition example_new :: lsh where
  "example_new =
     \<lparr>hash_size = 2, bands = 2, rows = 2, hash_buckets_list = [[], []],
      signatures = [], labels = [], label_counter = 0,
      similarity_scores = [], log = []\<rparr>"

definition example_store :: lsh where
  "example_store =
     \<lparr>hash_size = 2, bands = 2, rows = 2,
      hash_buckets_list =
        [[([False, False], [''a'']), ([True, True], [''b'', ''c''])],
         [([True, True], [''a'', ''b'']), ([False, False], [''c''])]],
      signatures = [(''a'', [48]), (''b'', [240]), (''c'', [192])],
      labels = [], label_counter = 0, similarity_scores = [], log = []\<rparr>"

definition example_first_band :: lsh where
  "example_first_band = example_store\<lparr>labels := [(''b'', 0), (''c'', 0)], label_counter := 1\<rparr>"

definition example_done :: lsh where
  "example_done =
     example_store\<lparr>labels := [(''b'', 0), (''c'', 0), (''a'', 1)], label_counter := 2\<rparr>"

text \<open>
  The example store after \<open>assign_labels\<close> with threshold \<open>1\<close>: no pair reaches the
  threshold, and \<open>_assign_labels_remaining_images\<close> labels the three images.
\<close>

definition example_singletons :: lsh where
  "example_singletons =
     example_store\<lparr>labels := [(''a'', 0), (''b'', 1), (''c'', 2)], label_counter := 3\<rparr>"

text \<open>
  A second run, with \<open>hash_size = 2\<close> and two bands: \<open>x\<close> and \<open>y\<close> have the same
  signature and make up one bucket of the second band.
\<close>

definition example_twin_adds :: "(image_id \<times> signature option) list" where
  "example_twin_adds =
     [(''x'', Some [False, False, False, False]),
      (''z'', Some [False, False, True, True]),
      (''y'', Some [False, False, False, False]),
      (''w'', Some [False, False, False, True])]"

definition example_twins :: lsh where
  "example_twins =
     \<lparr>hash_size = 2, bands = 2, rows = 2,
      hash_buckets_list =
        [[([False, False], [''x'', ''z'', ''y'', ''w''])],
         [([False, False], [''x'', ''y'']), ([True, True], [''z'']),
          ([False, True], [''w''])]],
      signatures = [(''x'', [0]), (''z'', [48]), (''y'', [0]), (''w'', [16])],
      labels = [], label_counter = 0, similarity_scores = [], log = []\<rparr>"

section \<open>Valid input\<close>

text \<open>Every signature that is present has \<open>hash_size\<^sup>2\<close> bits.\<close>

definition valid_adds :: "int \<Rightarrow> (image_id \<times> signature option) list \<Rightarrow> bool" where
  "valid_adds hs adds =
     list_all (\<lambda>(file_path, sg_opt).
                 case sg_opt of None \<Rightarrow> True | Some sg \<Rightarrow> length sg = nat (hs ^ 2)) adds"

text \<open>Every stored entry is the packed form of a signature of \<open>hash_size\<^sup>2\<close> bits.\<close>

definition valid_store :: "lsh \<Rightarrow> bool" where
  "valid_store s \<longleftrightarrow>
     (\<forall>file_path packed. map_of (signatures s) file_path = Some packed \<longrightarrow>
        (\<exists>sg. length sg = nat (hash_size s ^ 2) \<and> packed = packbits sg))"

text \<open>The ids that occur in the buckets.\<close>

definition bucket_members :: "(bool list \<times> image_id list) list list \<Rightarrow> image_id set" where
  "bucket_members bs = (\<Union>band \<in> set bs. \<Union>bucket \<in> set band. set (snd bucket))"

text \<open>The pairs that \<open>process_similarities\<close> scores, in the order of the walk.\<close>

definition candidate_pairs ::
  "(bool list \<times> image_id list) list list \<Rightarrow> (image_id \<times> image_id) list" where
  "candidate_pairs bs =
     concat (map (\<lambda>hash_buckets.
               concat (map (\<lambda>(key, matched_imgs).
                         if length matched_imgs > 1
                         then zip matched_imgs (tl matched_imgs) else [])
                       hash_buckets))
             bs)"

text \<open>
  The example store with the entries of \<open>b\<close> and \<open>c\<close> removed from the signature
  dictionary: every pair of the buckets has an id without a signature.
\<close>

definition example_orphans :: lsh where
  "example_orphans = example_store\<lparr>signatures := [(''a'', [48])]\<rparr>"

text \<open>The ids of a sequence of insertions that carry a signature, in order.\<close>

definition stored_ids :: "(image_id \<times> signature option) list \<Rightarrow> image_id list" where
  "stored_ids adds = map fst (filter (\<lambda>(file_path, sg_opt). sg_opt \<noteq> None) adds)"

text \<open>
  Two more processors for four-bit signatures: three bands (one row each, the fourth bit
  in no band) and five bands (no rows).
\<close>

definition example_uneven :: lsh where
  "example_uneven =
     \<lparr>hash_size = 2, bands = 3, rows = 1, hash_buckets_list = [[], [], []],
      signatures = [], labels = [], label_counter = 0,
      similarity_scores = [], log = []\<rparr>"

definition example_many_bands :: lsh where
  "example_many_bands =
     \<lparr>hash_size = 2, bands = 5, rows = 0, hash_buckets_list = [[], [], [], [], []],
      signatures = [], labels = [], label_counter = 0,
      similarity_scores = [], log = []\<rparr>"

section \<open>Renumbering labels\<close>

text \<open>The same processor with every label and the label counter moved by \<open>c\<close>.\<close>

definition shift_labels :: "int \<Rightarrow> lsh \<Rightarrow> lsh" where
  "shift_labels c s =
     s\<lparr>labels := map (\<lambda>(x, l). (x, l + c)) (labels s),
       label_counter := label_counter s + c\<rparr>"

text \<open>Two label mappings group the ids in the same way.\<close>

definition same_grouping :: "(image_id \<times> int) list \<Rightarrow> (image_id \<times> int) list \<Rightarrow> bool" where
  "same_grouping l1 l2 \<longleftrightarrow>
     fst ` set l1 = fst ` set l2
     \<and> (\<forall>x y. map_of l1 x = map_of l1 y \<longleftrightarrow> map_of l2 x = map_of l2 y)"

section \<open>Packed storage\<close>

lemma nat_of_bits_snoc: "nat_of_bits (bs @ [b]) = 2 * nat_of_bits bs + (if b then 1 else 0)"
  by (simp add: nat_of_bits_def)

lemma nat_of_bits_Nil: "nat_of_bits [] = 0"
  by (simp add: nat_of_bits_def)

lemma bits_of_nat_nat_of_bits: "bits_of_nat (length bs) (nat_of_bits bs) = bs"
proof (induction bs rule: rev_induct)
  case Nil
  show ?case by simp
next
  case (snoc b bs)
  then show ?case by (simp add: nat_of_bits_snoc)
qed

lemma nat_of_bits_less: "nat_of_bits bs < 2 ^ length bs"
proof (induction bs rule: rev_induct)
  case Nil
  show ?case by (simp add: nat_of_bits_Nil)
next
  case (snoc b bs)
  then show ?case by (simp add: nat_of_bits_snoc)
qed

lemma unpack_pack_byte:
  "unpack_byte (pack_byte bs) = take 8 bs @ replicate (8 - length (take 8 bs)) False"
proof -
  let ?p = "take 8 bs @ replicate (8 - length (take 8 bs)) False"
  have len: "length ?p = 8" by simp
  have "nat_of_bits ?p < 2 ^ 8" using nat_of_bits_less [of ?p] unfolding len .
  then have "unat (of_nat (nat_of_bits ?p) :: byte) = nat_of_bits ?p"
    by (simp add: unat_of_nat)
  then have "unpack_byte (pack_byte bs) = bits_of_nat (length ?p) (nat_of_bits ?p)"
    unfolding unpack_byte_def pack_byte_def len by simp
  then show ?thesis by (simp only: bits_of_nat_nat_of_bits)
qed

lemma unpackbits_packbits:
  "unpackbits (packbits bs) = bs @ replicate ((8 - length bs mod 8) mod 8) False"
proof (induction bs rule: packbits.induct)
  case (1 bs)
  show ?case
  proof (cases "bs = []")
    case True
    then show ?thesis by (simp add: packbits.simps unpackbits_def)
  next
    case False
    note ih = 1 [OF False]
    show ?thesis
    proof (cases "length bs \<le> 8")
      case True
      then have d: "drop 8 bs = []" by simp
      have "(8 - length bs mod 8) mod 8 = 8 - length bs"
        using True False by (cases "length bs = 8") auto
      then show ?thesis using False True d
        by (simp add: packbits.simps [of bs] packbits.simps [of "[]"] unpackbits_def
            unpack_pack_byte)
    next
      case gt: False
      then have m: "length (drop 8 bs) mod 8 = length bs mod 8"
        by (simp add: le_mod_geq)
      have "unpackbits (packbits bs) = take 8 bs @ unpackbits (packbits (drop 8 bs))"
        using False gt by (simp add: packbits.simps [of bs] unpackbits_def unpack_pack_byte)
      also have "\<dots> = take 8 bs @ drop 8 bs @ replicate ((8 - length bs mod 8) mod 8) False"
        using ih m by (simp del: length_drop)
      finally show ?thesis by simp
    qed
  qed
qed

lemma add_bands_signatures:
  "add_bands s fp sg is = Inr s' \<Longrightarrow> signatures s' = signatures s"
  by (induction "is" arbitrary: s) (auto split: if_splits)

lemma map_of_update_same: "map_of (AList.update k v al) k = Some v"
  by (simp add: update_conv')

text \<open>
  Claim C4, as the code has it. Storing a signature \<open>sg\<close> with \<open>add_signature\<close> and
  unpacking the stored bytes, as \<open>calculate_similarity\<close> does, gives \<open>sg\<close> followed by
  zero bits up to the next multiple of eight: the first \<open>length sg\<close> bits are \<open>sg\<close>, and
  the result is \<open>sg\<close> itself exactly when the length of \<open>sg\<close> is a multiple of eight.
\<close>

theorem stored_bits_after_add:
  assumes "add_signature s file_path (Some sg) = Inr s'"
  shows "stored_bits s' file_path
           = Some (sg @ replicate ((8 - length sg mod 8) mod 8) False)
         \<and> map_option (take (length sg)) (stored_bits s' file_path) = Some sg
         \<and> (stored_bits s' file_path = Some sg \<longleftrightarrow> 8 dvd length sg)"
proof -
  from assms have "signatures s' = AList.update file_path (packbits sg) (signatures s)"
    by (auto simp: add_signature_def dest: add_bands_signatures)
  then have st: "stored_bits s' file_path
      = Some (sg @ replicate ((8 - length sg mod 8) mod 8) False)"
    by (simp add: stored_bits_def map_of_update_same unpackbits_packbits)
  have "((8 - length sg mod 8) mod 8 = 0) = (8 dvd length sg)"
    by presburger
  with st show ?thesis by simp
qed

theorem stored_bits_after_add_witness:
  "stored_bits
     \<lparr>hash_size = 1, bands = 1, rows = 1, hash_buckets_list = [[([True], [''a''])]],
      signatures = [(''a'', [128])], labels = [], label_counter = 0,
      similarity_scores = [], log = []\<rparr> ''a''
     = Some [True, False, False, False, False, False, False, False]"
proof -
  have a: "add_signature
      \<lparr>hash_size = 1, bands = 1, rows = 1, hash_buckets_list = [[]],
       signatures = [], labels = [], label_counter = 0,
       similarity_scores = [], log = []\<rparr> ''a'' (Some [True])
    = Inr \<lparr>hash_size = 1, bands = 1, rows = 1, hash_buckets_list = [[([True], [''a''])]],
           signatures = [(''a'', [128])], labels = [], label_counter = 0,
           similarity_scores = [], log = []\<rparr>"
    by code_simp
  have r: "replicate 7 False = [False, False, False, False, False, False, False]"
    by code_simp
  show ?thesis using stored_bits_after_add [OF a] r by simp
qed

text \<open>
  Claim C4, as the specification states it, fails: with \<open>hash_size = 1\<close> the one-bit
  signature \<open>[True]\<close> is read back as eight bits.
\<close>

theorem stored_bits_roundtrip_counterexample:
  "lsh_init 1 1 =
     Inr \<lparr>hash_size = 1, bands = 1, rows = 1, hash_buckets_list = [[]],
          signatures = [], labels = [], label_counter = 0,
          similarity_scores = [], log = []\<rparr>
   \<and> length [True] = nat (1 ^ 2)
   \<and> add_signature
       \<lparr>hash_size = 1, bands = 1, rows = 1, hash_buckets_list = [[]],
        signatures = [], labels = [], label_counter = 0,
        similarity_scores = [], log = []\<rparr> ''a'' (Some [True])
     = Inr \<lparr>hash_size = 1, bands = 1, rows = 1, hash_buckets_list = [[([True], [''a''])]],
            signatures = [(''a'', [128])], labels = [], label_counter = 0,
            similarity_scores = [], log = []\<rparr>
   \<and> stored_bits
       \<lparr>hash_size = 1, bands = 1, rows = 1, hash_buckets_list = [[([True], [''a''])]],
        signatures = [(''a'', [128])], labels = [], label_counter = 0,
        similarity_scores = [], log = []\<rparr> ''a''
     \<noteq> Some [True]"
  by code_simp

section \<open>The similarity score\<close>

lemma count_differing_append:
  "length xs = length ys \<Longrightarrow>
     count_differing (xs @ zs) (ys @ zs') = count_differing xs ys + count_differing zs zs'"
  by (simp add: count_differing_def)

lemma count_differing_same: "count_differing zs zs = 0"
  by (induction zs) (simp_all add: count_differing_def)

lemma count_differing_le: "count_differing xs ys \<le> length xs"
proof -
  have "count_differing xs ys \<le> length (zip xs ys)"
    unfolding count_differing_def by (rule length_filter_le)
  then show ?thesis by simp
qed

lemma count_differing_zero_iff:
  "length xs = length ys \<Longrightarrow> count_differing xs ys = 0 \<longleftrightarrow> xs = ys"
proof (induction xs ys rule: list_induct2)
  case Nil
  show ?case by (simp add: count_differing_def)
next
  case (Cons x xs y ys)
  then show ?case by (auto simp: count_differing_def)
qed

lemma packbits_inject:
  assumes "length sa = length sb" and "packbits sa = packbits sb"
  shows "sa = sb"
proof -
  from assms(2) have "unpackbits (packbits sa) = unpackbits (packbits sb)" by simp
  then have "sa @ replicate ((8 - length sa mod 8) mod 8) False
      = sb @ replicate ((8 - length sb mod 8) mod 8) False"
    by (simp only: unpackbits_packbits)
  with assms(1) show ?thesis by simp
qed

lemma count_differing_unpacked:
  assumes "length sa = length sb"
  shows "count_differing (unpackbits (packbits sa)) (unpackbits (packbits sb))
           = count_differing sa sb"
  using assms
  by (simp add: unpackbits_packbits count_differing_append count_differing_same)

text \<open>
  Claim C5. For two ids whose stored entries are the packed forms of signatures \<open>sa\<close> and
  \<open>sb\<close> of length \<open>hash_size\<^sup>2\<close>, with \<open>hash_size\<close> positive,
  \<open>calculate_similarity\<close> returns the score
  \<open>(hash_size\<^sup>2 - d) / hash_size\<^sup>2\<close>, where \<open>d\<close> is the number of positions at which
  \<open>sa\<close> and \<open>sb\<close> differ; the score lies between 0 and 1, and it is 1 exactly when the
  two signatures, and equally their stored forms, are identical. With \<open>img_b = img_a\<close> this
  gives the score 1 of a signature against itself.
\<close>

theorem similarity_score:
  assumes hs: "0 < hash_size s"
    and a: "map_of (signatures s) img_a = Some (packbits sa)"
    and b: "map_of (signatures s) img_b = Some (packbits sb)"
    and la: "length sa = nat (hash_size s ^ 2)"
    and lb: "length sb = nat (hash_size s ^ 2)"
  shows "\<exists>score.
           calculate_similarity s (img_a, img_b) = Inr ((img_a, img_b, score), s)
         \<and> score = of_int (hash_size s ^ 2 - int (count_differing sa sb))
                     / of_int (hash_size s ^ 2)
         \<and> 0 \<le> score \<and> score \<le> 1
         \<and> (score = 1 \<longleftrightarrow> sa = sb)
         \<and> (score = 1 \<longleftrightarrow> packbits sa = packbits sb)"
proof -
  let ?n = "hash_size s ^ 2"
  let ?d = "count_differing sa sb"
  let ?score = "(of_int (?n - int ?d) / of_int ?n) :: rat"
  have len: "length sa = length sb" using la lb by simp
  have n: "0 < ?n" using hs by simp
  have d: "int ?d \<le> ?n" using count_differing_le [of sa sb] la n by linarith
  have ulen: "length (unpackbits (packbits sa)) = length (unpackbits (packbits sb))"
    using len by (simp add: unpackbits_packbits)
  have calc: "calculate_similarity s (img_a, img_b) = Inr ((img_a, img_b, ?score), s)"
    using a b ulen n len by (simp add: calculate_similarity_def count_differing_unpacked)
  have "0 \<le> ?n - int ?d" using d by simp
  then have num: "0 \<le> (of_int (?n - int ?d) :: rat)" by (rule of_int_nonneg)
  have den: "0 < (of_int ?n :: rat)" using n by (simp only: of_int_0_less_iff)
  have nn: "0 \<le> ?score" using num den by (rule divide_nonneg_pos)
  have "?n - int ?d \<le> ?n" by simp
  then have "(of_int (?n - int ?d) :: rat) \<le> of_int ?n" by (simp only: of_int_le_iff)
  then have le1: "?score \<le> 1" using den by (simp only: divide_le_eq_1_pos)
  have "?score = 1 \<longleftrightarrow> (of_int (?n - int ?d) :: rat) = of_int ?n"
    using den by auto
  also have "\<dots> \<longleftrightarrow> ?n - int ?d = ?n" by (simp only: of_int_eq_iff)
  also have "\<dots> \<longleftrightarrow> ?d = 0" by simp
  finally have one: "?score = 1 \<longleftrightarrow> sa = sb"
    using count_differing_zero_iff [OF len] by simp
  have "packbits sa = packbits sb \<longleftrightarrow> sa = sb" using packbits_inject [OF len] by auto
  with calc nn le1 one show ?thesis by blast
qed


theorem similarity_score_witness:
  "calculate_similarity
     \<lparr>hash_size = 2, bands = 2, rows = 2, hash_buckets_list = [[], []],
      signatures = [(''a'', packbits [True, True, False, False]),
                    (''b'', packbits [True, False, False, False])],
      labels = [], label_counter = 0, similarity_scores = [], log = []\<rparr> (''a'', ''b'')
   = Inr ((''a'', ''b'', 3 / 4),
     \<lparr>hash_size = 2, bands = 2, rows = 2, hash_buckets_list = [[], []],
      signatures = [(''a'', packbits [True, True, False, False]),
                    (''b'', packbits [True, False, False, False])],
      labels = [], label_counter = 0, similarity_scores = [], log = []\<rparr>)"
proof -
  let ?s = "\<lparr>hash_size = 2, bands = 2, rows = 2, hash_buckets_list = [[], []],
      signatures = [(''a'', packbits [True, True, False, False]),
                    (''b'', packbits [True, False, False, False])],
      labels = [], label_counter = 0, similarity_scores = [], log = []\<rparr>"
  have h1: "0 < hash_size ?s" by simp
  have h2: "map_of (signatures ?s) ''a'' = Some (packbits [True, True, False, False])"
    by simp
  have h3: "map_of (signatures ?s) ''b'' = Some (packbits [True, False, False, False])"
    by simp
  have h4: "length [True, True, False, False] = nat (hash_size ?s ^ 2)" by simp
  have h5: "length [True, False, False, False] = nat (hash_size ?s ^ 2)" by simp
  have c: "count_differing [True, True, False, False] [True, False, False, False] = 1"
    by (simp add: count_differing_def)
  from similarity_score [OF h1 h2 h3 h4 h5] obtain score where
    cs: "calculate_similarity ?s (''a'', ''b'') = Inr ((''a'', ''b'', score), ?s)" and
    sc: "score = of_int (hash_size ?s ^ 2
             - int (count_differing [True, True, False, False] [True, False, False, False]))
           / of_int (hash_size ?s ^ 2)"
    by blast
  have "score = 3 / 4" unfolding sc c by simp
  with cs show ?thesis by simp
qed

section \<open>Labels are kept, fresh labels grow\<close>

lemma same_store_refl: "same_store s s"
  by (simp add: same_store_def)

lemma same_store_trans: "same_store s t \<Longrightarrow> same_store t u \<Longrightarrow> same_store s u"
  by (simp add: same_store_def)

lemma label_extension_refl: "label_extension s s"
  by (simp add: label_extension_def same_store_refl)

lemma label_extension_trans:
  assumes st: "label_extension s t" and tu: "label_extension t u"
  shows "label_extension s u"
proof -
  have new: "(\<exists>y. map_of (labels s) y = Some l) \<or> label_counter s \<le> l"
    if s: "map_of (labels s) x = None" and u: "map_of (labels u) x = Some l" for x l
  proof (cases "map_of (labels t) x")
    case None
    with tu u have "(\<exists>y. map_of (labels t) y = Some l) \<or> label_counter t \<le> l"
      unfolding label_extension_def by blast
    then show ?thesis
    proof
      assume "\<exists>y. map_of (labels t) y = Some l"
      then obtain y where y: "map_of (labels t) y = Some l" ..
      show ?thesis
      proof (cases "map_of (labels s) y")
        case None
        with st y show ?thesis unfolding label_extension_def by blast
      next
        case (Some l')
        with st have "map_of (labels t) y = Some l'" unfolding label_extension_def by blast
        with y Some show ?thesis by auto
      qed
    next
      assume "label_counter t \<le> l"
      moreover from st have "label_counter s \<le> label_counter t"
        unfolding label_extension_def by blast
      ultimately show ?thesis by simp
    qed
  next
    case (Some l')
    with tu have "map_of (labels u) x = Some l'" unfolding label_extension_def by blast
    with u have "l' = l" by simp
    with Some s st show ?thesis unfolding label_extension_def by blast
  qed
  have "same_store s u" using st tu same_store_trans unfolding label_extension_def by blast
  moreover have "label_counter s \<le> label_counter u"
    using st tu unfolding label_extension_def by force
  moreover have "\<forall>x l. map_of (labels s) x = Some l \<longrightarrow> map_of (labels u) x = Some l"
    using st tu unfolding label_extension_def by blast
  moreover have "labels_below_counter s \<longrightarrow> labels_below_counter u"
    using st tu unfolding label_extension_def by blast
  moreover have "distinct (map fst (labels s)) \<longrightarrow> distinct (map fst (labels u))"
    using st tu unfolding label_extension_def by blast
  ultimately show ?thesis using new unfolding label_extension_def by blast
qed

lemma label_extension_fresh:
  assumes "map_of (labels s) x = None"
  shows "label_extension s
     (s\<lparr>labels := AList.update x (label_counter s) (labels s),
        label_counter := label_counter s + 1\<rparr>)"
proof -
  have "l \<le> label_counter s" if "labels_below_counter s" and "map_of (labels s) y = Some l"
    for y l
    using that unfolding labels_below_counter_def by (meson less_imp_le)
  then show ?thesis
    using assms
    by (auto simp: label_extension_def same_store_def labels_below_counter_def update_conv'
        distinct_update split: if_splits)
qed

lemma label_extension_inherit:
  assumes "map_of (labels s) y = None" and "map_of (labels s) x = Some l"
  shows "label_extension s (s\<lparr>labels := AList.update y l (labels s)\<rparr>)"
  using assms
  by (auto simp: label_extension_def same_store_def labels_below_counter_def update_conv'
      distinct_update split: if_splits)

lemma label_extension_scores:
  "label_extension s (s\<lparr>similarity_scores := v\<rparr>)"
  by (simp add: label_extension_def same_store_def labels_below_counter_def)

lemma label_extension_log:
  "label_extension s (s\<lparr>log := v\<rparr>)"
  by (simp add: label_extension_def same_store_def labels_below_counter_def)

lemma calculate_similarity_extension:
  "calculate_similarity s p = Inr (r, t) \<Longrightarrow> label_extension s t"
  by (auto simp: calculate_similarity_def label_extension_log label_extension_refl
      split: prod.splits option.splits if_splits)

lemma calculate_similarity_labels:
  "calculate_similarity s p = Inr (r, t) \<Longrightarrow>
     labels t = labels s \<and> label_counter t = label_counter s
     \<and> fst r = fst p \<and> fst (snd r) = snd p"
  by (auto simp: calculate_similarity_def split: prod.splits option.splits if_splits)


lemma label_pair_extension:
  assumes "label_pair threshold collect_scores r s = Inr t"
  shows "label_extension s t"
proof -
  obtain a b sim where r: "r = (a, b, sim)" by (cases r) auto
  show ?thesis
  proof (cases "threshold \<le> sim")
    case False
    with assms r show ?thesis by (simp add: label_pair_def label_extension_refl)
  next
    case True
    define s1 where "s1 = (if \<not> has_key a (labels s)
                     then s\<lparr>labels := AList.update a (label_counter s) (labels s),
                            label_counter := label_counter s + 1\<rparr>
                     else s)"
    have e1: "label_extension s s1"
      unfolding s1_def by (simp add: has_key_def label_extension_fresh label_extension_refl)
    define r2 where "r2 = (if \<not> has_key b (labels s1)
                    then (case map_of (labels s1) a of
                            None \<Rightarrow> Inl KeyError
                          | Some label_a \<Rightarrow>
                              Inr (s1\<lparr>labels := AList.update b label_a (labels s1)\<rparr>))
                    else Inr s1)"
    from assms r True obtain s2 where s2: "r2 = Inr s2" and
      t: "t = (if collect_scores
               then s2\<lparr>similarity_scores := similarity_scores s2 @ [(a, b, sim)]\<rparr>
               else s2)"
      unfolding label_pair_def r2_def s1_def by (auto simp: Let_def split: sum.splits)
    have e2: "label_extension s1 s2"
      using s2 unfolding r2_def
      by (auto simp: has_key_def label_extension_inherit label_extension_refl
          split: if_splits option.splits)
    have e3: "label_extension s2 t"
      unfolding t by (simp add: label_extension_scores label_extension_refl)
    from e1 e2 e3 show ?thesis by (blast intro: label_extension_trans)
  qed
qed

lemma walk_pairs_extension:
  "walk_pairs threshold collect_scores s pairs = Inr t \<Longrightarrow> label_extension s t"
proof (induction pairs arbitrary: s)
  case Nil
  then show ?case by (simp add: label_extension_refl)
next
  case (Cons p pairs)
  from Cons.prems obtain r s1 s2 where
    c: "calculate_similarity s p = Inr (r, s1)" and
    l: "label_pair threshold collect_scores r s1 = Inr s2" and
    w: "walk_pairs threshold collect_scores s2 pairs = Inr t"
    by (auto split: sum.splits)
  from calculate_similarity_extension [OF c] label_pair_extension [OF l] Cons.IH [OF w]
  show ?case by (blast intro: label_extension_trans)
qed

lemma walk_buckets_extension:
  "walk_buckets threshold collect_scores s buckets = Inr t \<Longrightarrow> label_extension s t"
proof (induction buckets arbitrary: s)
  case Nil
  then show ?case by (simp add: label_extension_refl)
next
  case (Cons bucket buckets)
  obtain key ms where b: "bucket = (key, ms)" by (cases bucket)
  show ?case
  proof (cases "1 < length ms")
    case True
    with Cons.prems b obtain s1 where
      w: "walk_pairs threshold collect_scores s (zip ms (tl ms)) = Inr s1" and
      r: "walk_buckets threshold collect_scores s1 buckets = Inr t"
      by (auto split: sum.splits)
    from walk_pairs_extension [OF w] Cons.IH [OF r] show ?thesis
      by (blast intro: label_extension_trans)
  next
    case False
    with Cons.prems b have "walk_buckets threshold collect_scores s buckets = Inr t" by simp
    then show ?thesis by (rule Cons.IH)
  qed
qed

lemma walk_bands_extension:
  "walk_bands threshold collect_scores s bs = Inr t \<Longrightarrow> label_extension s t"
proof (induction bs arbitrary: s)
  case Nil
  then show ?case by (simp add: label_extension_refl)
next
  case (Cons band bs)
  from Cons.prems obtain s1 where
    w: "walk_buckets threshold collect_scores s band = Inr s1" and
    r: "walk_bands threshold collect_scores s1 bs = Inr t"
    by (auto split: sum.splits)
  from walk_buckets_extension [OF w] Cons.IH [OF r] show ?case
    by (blast intro: label_extension_trans)
qed

lemma label_remaining_extension: "label_extension s (label_remaining file_path s)"
  by (simp add: label_remaining_def has_key_def label_extension_fresh label_extension_refl)

lemma label_all_remaining_extension: "label_extension s (label_all_remaining s file_paths)"
proof (induction file_paths arbitrary: s)
  case Nil
  show ?case by (simp add: label_extension_refl)
next
  case (Cons fp fps)
  from label_remaining_extension [of s fp] Cons [of "label_remaining fp s"]
  show ?case by (auto intro: label_extension_trans)
qed

lemma later_extension: "later s t \<Longrightarrow> label_extension s t"
proof (induction rule: later.induct)
  case (later_pairs threshold collect_scores s pairs t)
  then show ?case by (rule walk_pairs_extension)
next
  case (later_buckets threshold collect_scores s buckets t)
  then show ?case by (rule walk_buckets_extension)
next
  case (later_bands threshold collect_scores s bs t)
  then show ?case by (rule walk_bands_extension)
next
  case (later_remaining s file_paths)
  show ?case by (rule label_all_remaining_extension)
next
  case (later_trans s t u)
  then show ?case by (blast intro: label_extension_trans)
qed

lemma assign_labels_later:
  assumes "assign_labels threshold s = Inr (lbls, t)"
  shows "later s t \<and> lbls = labels t"
proof -
  from assms obtain s1 where
    p: "walk_bands threshold False s (hash_buckets_list s) = Inr s1" and
    t: "t = label_all_remaining s1 (map fst (signatures s1))" and l: "lbls = labels t"
    by (auto simp: assign_labels_def process_similarities_def
        assign_labels_remaining_images_def Let_def split: sum.splits)
  have "later s s1" using p by (rule later_bands)
  moreover have "later s1 t" unfolding t by (rule later_remaining)
  ultimately show ?thesis using l by (blast intro: later_trans)
qed


lemma add_bands_fields:
  "add_bands s fp sg is = Inr t \<Longrightarrow>
     labels t = labels s \<and> label_counter t = label_counter s \<and> hash_size t = hash_size s
     \<and> bands t = bands s \<and> rows t = rows s \<and> signatures t = signatures s"
  by (induction "is" arbitrary: s) (auto split: if_splits)

lemma add_signature_fields:
  "add_signature s fp sg = Inr t \<Longrightarrow>
     labels t = labels s \<and> label_counter t = label_counter s \<and> hash_size t = hash_size s
     \<and> bands t = bands s \<and> rows t = rows s"
  by (cases sg) (auto simp: add_signature_def dest: add_bands_fields)

lemma add_all_fields:
  "add_all s adds = Inr t \<Longrightarrow>
     labels t = labels s \<and> label_counter t = label_counter s \<and> hash_size t = hash_size s
     \<and> bands t = bands s \<and> rows t = rows s"
proof (induction adds arbitrary: s)
  case Nil
  then show ?case by simp
next
  case (Cons a adds)
  obtain fp sg where a: "a = (fp, sg)" by (cases a)
  from Cons.prems a obtain s1 where
    s1: "add_signature s fp sg = Inr s1" and r: "add_all s1 adds = Inr t"
    by (auto split: sum.splits)
  from add_signature_fields [OF s1] Cons.IH [OF r] show ?case by simp
qed

lemma lsh_init_fields:
  "lsh_init hs b = Inr s \<Longrightarrow>
     labels s = [] \<and> label_counter s = 0 \<and> hash_size s = hs \<and> bands s = b
     \<and> rows s = hs ^ 2 div b \<and> signatures s = []
     \<and> hash_buckets_list s = replicate (nat b) [] \<and> b \<noteq> 0"
  by (auto simp: lsh_init_def split: if_splits)

lemma built_labels_empty:
  assumes "lsh_init hs b = Inr s0" and "add_all s0 adds = Inr s"
  shows "labels s = []" and "label_counter s = 0"
  using lsh_init_fields [OF assms(1)] add_all_fields [OF assms(2)] by simp_all

lemma example_init: "lsh_init 2 2 = Inr example_new"
  by code_simp

lemma example_add_all: "add_all example_new example_adds = Inr example_store"
  by code_simp

section \<open>Pairs that pass the threshold\<close>

lemma walk_bands_append:
  "walk_bands threshold collect_scores s (xs @ ys) =
     (case walk_bands threshold collect_scores s xs of
        Inl e \<Rightarrow> Inl e
      | Inr t \<Rightarrow> walk_bands threshold collect_scores t ys)"
  by (induction xs arbitrary: s) (auto split: sum.splits)

lemma walk_buckets_append:
  "walk_buckets threshold collect_scores s (xs @ ys) =
     (case walk_buckets threshold collect_scores s xs of
        Inl e \<Rightarrow> Inl e
      | Inr t \<Rightarrow> walk_buckets threshold collect_scores t ys)"
  by (induction xs arbitrary: s) (auto split: sum.splits)

lemma walk_pairs_append:
  "walk_pairs threshold collect_scores s (xs @ ys) =
     (case walk_pairs threshold collect_scores s xs of
        Inl e \<Rightarrow> Inl e
      | Inr t \<Rightarrow> walk_pairs threshold collect_scores t ys)"
  by (induction xs arbitrary: s) (auto split: sum.splits)

lemma label_pair_links:
  assumes "label_pair threshold collect_scores (a, b, sim) t = Inr v"
    and "threshold \<le> sim"
    and "map_of (labels t) b = None \<or> map_of (labels t) b = map_of (labels t) a"
  shows "\<exists>l. map_of (labels v) a = Some l \<and> map_of (labels v) b = Some l"
  using assms
  by (auto simp: label_pair_def has_key_def update_conv' Let_def
      split: if_splits option.splits)

text \<open>The walk from the start of one bucket to the end of the run.\<close>

lemma run_from_bucket:
  assumes run: "assign_labels threshold s = Inr (lbls, s')"
    and bucket: "hash_buckets_list s = bs1 @ (bk1 @ (key, ms) # bk2) # bs2"
    and before: "walk_bands threshold False s bs1 = Inr t1"
      "walk_buckets threshold False t1 bk1 = Inr t2"
  shows "\<exists>v. walk_buckets threshold False t2 [(key, ms)] = Inr v \<and> later v s'
             \<and> lbls = labels s'"
proof -
  from run obtain s1 where
    p: "walk_bands threshold False s (hash_buckets_list s) = Inr s1" and
    s': "s' = label_all_remaining s1 (map fst (signatures s1))" and l: "lbls = labels s'"
    by (auto simp: assign_labels_def process_similarities_def
        assign_labels_remaining_images_def Let_def split: sum.splits)
  from p bucket before(1) have
    "walk_bands threshold False t1 ((bk1 @ (key, ms) # bk2) # bs2) = Inr s1"
    by (simp add: walk_bands_append)
  then obtain u1 where
    u1: "walk_buckets threshold False t1 (bk1 @ (key, ms) # bk2) = Inr u1" and
    r1: "walk_bands threshold False u1 bs2 = Inr s1"
    by (auto split: sum.splits)
  from u1 before(2) have "walk_buckets threshold False t2 ([(key, ms)] @ bk2) = Inr u1"
    by (simp add: walk_buckets_append)
  then obtain v where
    v: "walk_buckets threshold False t2 [(key, ms)] = Inr v" and
    r2: "walk_buckets threshold False v bk2 = Inr u1"
    unfolding walk_buckets_append by (auto split: sum.splits)
  have "later v u1" using r2 by (rule later_buckets)
  moreover have "later u1 s1" using r1 by (rule later_bands)
  moreover have "later s1 s'" unfolding s' by (rule later_remaining)
  ultimately have "later v s'" by (blast intro: later_trans)
  with v l show ?thesis by blast
qed

text \<open>
  The case in which the pair step does link the pair. Let a bucket hold exactly
  \<open>[A, B]\<close>, let \<open>t2\<close> be the state in which the walk reaches that bucket, and let the
  score of the pair be at least the threshold. If \<open>B\<close> has no label in \<open>t2\<close>, or
  already has the label of \<open>A\<close>, then \<open>assign_labels\<close> maps \<open>A\<close> and \<open>B\<close> to the same
  label; \<open>A\<close> may have been labelled from an earlier bucket.
\<close>

theorem pair_bucket_same_label:
  assumes run: "assign_labels threshold s = Inr (lbls, s')"
    and bucket: "hash_buckets_list s = bs1 @ (bk1 @ (key, [A, B]) # bk2) # bs2"
    and before: "walk_bands threshold False s bs1 = Inr t1"
      "walk_buckets threshold False t1 bk1 = Inr t2"
    and score: "calculate_similarity t2 (A, B) = Inr ((A, B, similarity), t3)"
      "threshold \<le> similarity"
    and unlabelled: "map_of (labels t2) B = None \<or> map_of (labels t2) B = map_of (labels t2) A"
  shows "\<exists>l. map_of lbls A = Some l \<and> map_of lbls B = Some l"
proof -
  from run_from_bucket [OF run bucket before] obtain v where
    v: "walk_buckets threshold False t2 [(key, [A, B])] = Inr v" and
    lt: "later v s'" and l: "lbls = labels s'"
    by blast
  from v score(1) have lp: "label_pair threshold False (A, B, similarity) t3 = Inr v"
    by (auto split: sum.splits)
  have "labels t3 = labels t2" using calculate_similarity_labels [OF score(1)] by simp
  with unlabelled have
    "map_of (labels t3) B = None \<or> map_of (labels t3) B = map_of (labels t3) A"
    by simp
  from label_pair_links [OF lp score(2) this] obtain l' where
    "map_of (labels v) A = Some l'" and "map_of (labels v) B = Some l'"
    by blast
  with later_extension [OF lt] l show ?thesis
    unfolding label_extension_def by blast
qed

theorem pair_bucket_same_label_witness:
  "assign_labels (1 / 2) example_store = Inr (labels example_done, example_done)
   \<and> hash_buckets_list example_store
       = [] @ ([([False, False], [''a''])] @ ([True, True], [''b'', ''c'']) # []) # 
         [[([True, True], [''a'', ''b'']), ([False, False], [''c''])]]
   \<and> walk_bands (1 / 2) False example_store [] = Inr example_store
   \<and> walk_buckets (1 / 2) False example_store [([False, False], [''a''])] = Inr example_store
   \<and> calculate_similarity example_store (''b'', ''c'')
       = Inr ((''b'', ''c'', 1 / 2), example_store)
   \<and> map_of (labels example_store) ''c'' = None
   \<and> map_of (labels example_done) ''b'' = Some 0
   \<and> map_of (labels example_done) ''c'' = Some 0"
proof -
  have run: "assign_labels (1 / 2) example_store = Inr (labels example_done, example_done)"
    by code_simp
  have bucket: "hash_buckets_list example_store
       = [] @ ([([False, False], [''a''])] @ ([True, True], [''b'', ''c'']) # []) # 
         [[([True, True], [''a'', ''b'']), ([False, False], [''c''])]]"
    by code_simp
  have b1: "walk_bands (1 / 2) False example_store [] = Inr example_store" by simp
  have b2: "walk_buckets (1 / 2) False example_store [([False, False], [''a''])]
      = Inr example_store"
    by simp
  have sc: "calculate_similarity example_store (''b'', ''c'')
       = Inr ((''b'', ''c'', 1 / 2), example_store)"
    by code_simp
  have th: "(1 / 2 :: rat) \<le> 1 / 2" by simp
  have un: "map_of (labels example_store) ''c'' = None" by code_simp
  from pair_bucket_same_label [OF run bucket b1 b2 sc th disjI1 [OF un]]
  obtain l where l: "map_of (labels example_done) ''b'' = Some l"
    "map_of (labels example_done) ''c'' = Some l"
    by blast
  moreover have "map_of (labels example_done) ''b'' = Some 0" by code_simp
  ultimately have "map_of (labels example_done) ''b'' = Some 0"
    "map_of (labels example_done) ''c'' = Some 0"
    by simp_all
  with run bucket b1 b2 sc un show ?thesis by blast
qed

text \<open>
  Claim C1: a bucket \<open>[A, B]\<close> whose pair scores at least the threshold ends with \<open>A\<close>
  and \<open>B\<close> under one label, also when one of them was labelled from an earlier bucket;
  the docstring of \<open>assign_labels\<close> says the same (\<open>similar images above threshold
  having same label\<close>). The code does not do this when \<open>B\<close> is the one labelled earlier:
  lines 96 to 98 give the unlabelled \<open>A\<close> a fresh label without looking at \<open>B\<close>, while
  in the mirrored case (lines 99 and 100) the unlabelled \<open>B\<close> does take the label of
  \<open>A\<close>. In the example run the second band has the bucket \<open>[a, b]\<close>, the score of the
  pair is \<open>1/2\<close>, the threshold is \<open>1/2\<close>, and \<open>b\<close> has the label 0 from the bucket
  \<open>[b, c]\<close> of the first band; \<open>a\<close> gets the fresh label 1 and \<open>b\<close> keeps 0.
\<close>

theorem pair_bucket_same_label_counterexample:
  "lsh_init 2 2 = Inr example_new
   \<and> add_all example_new example_adds = Inr example_store
   \<and> hash_buckets_list example_store ! 1
       = [([True, True], [''a'', ''b'']), ([False, False], [''c''])]
   \<and> walk_bands (1 / 2) False example_store [hash_buckets_list example_store ! 0]
       = Inr example_first_band
   \<and> calculate_similarity example_first_band (''a'', ''b'')
       = Inr ((''a'', ''b'', 1 / 2), example_first_band)
   \<and> assign_labels (1 / 2) example_store = Inr (labels example_done, example_done)
   \<and> map_of (labels example_done) ''a'' = Some 1
   \<and> map_of (labels example_done) ''b'' = Some 0"
  by code_simp

text \<open>
  The same defect on two identical images. With \<open>hash_size = 2\<close>, two bands and
  threshold \<open>3/4\<close>, the images \<open>x\<close> and \<open>y\<close> have the signature \<open>0000\<close> and make up
  the bucket \<open>[x, y]\<close> of the second band; their score is 1. In the first band \<open>y\<close> is
  labelled 0 together with \<open>w\<close>; at the bucket \<open>[x, y]\<close> the unlabelled \<open>x\<close> then draws
  the fresh label 1.
\<close>

theorem identical_images_split_labels:
  "add_all example_new example_twin_adds = Inr example_twins
   \<and> hash_buckets_list example_twins ! 1
       = [([False, False], [''x'', ''y'']), ([True, True], [''z'']), ([False, True], [''w''])]
   \<and> map_of (signatures example_twins) ''x'' = map_of (signatures example_twins) ''y''
   \<and> calculate_similarity example_twins (''x'', ''y'')
       = Inr ((''x'', ''y'', 1), example_twins)
   \<and> map_sum id fst (assign_labels (3 / 4) example_twins)
       = Inr [(''y'', 0), (''w'', 0), (''x'', 1), (''z'', 2)]"
  by code_simp

section \<open>Threshold zero\<close>

lemma add_signature_signatures:
  "add_signature s fp (Some sg) = Inr t \<Longrightarrow>
     signatures t = AList.update fp (packbits sg) (signatures s)"
  by (auto simp: add_signature_def dest: add_bands_fields)

lemma add_signature_valid_store:
  assumes "valid_store s" and "add_signature s fp sg_opt = Inr t"
    and "case sg_opt of None \<Rightarrow> True | Some sg \<Rightarrow> length sg = nat (hash_size s ^ 2)"
  shows "valid_store t"
proof (cases sg_opt)
  case None
  with assms show ?thesis by (simp add: add_signature_def)
next
  case (Some sg)
  with assms(2) have sig: "signatures t = AList.update fp (packbits sg) (signatures s)"
    by (simp add: add_signature_signatures)
  have hs: "hash_size t = hash_size s" using add_signature_fields [OF assms(2)] by simp
  show ?thesis
    unfolding valid_store_def sig hs update_conv'
    using assms(1,3) Some by (auto simp: valid_store_def)
qed

lemma add_all_valid_store:
  "valid_store s \<Longrightarrow> valid_adds (hash_size s) adds \<Longrightarrow> add_all s adds = Inr t
     \<Longrightarrow> valid_store t"
proof (induction adds arbitrary: s)
  case Nil
  then show ?case by simp
next
  case (Cons a adds)
  obtain fp sg where a: "a = (fp, sg)" by (cases a)
  from Cons.prems(3) a obtain s1 where
    s1: "add_signature s fp sg = Inr s1" and r: "add_all s1 adds = Inr t"
    by (auto split: sum.splits)
  have hs: "hash_size s1 = hash_size s" using add_signature_fields [OF s1] by simp
  have "valid_store s1"
    using Cons.prems(1) s1
  proof (rule add_signature_valid_store)
    show "case sg of None \<Rightarrow> True | Some sg \<Rightarrow> length sg = nat (hash_size s ^ 2)"
      using Cons.prems(2) a by (simp add: valid_adds_def)
  qed
  moreover have "valid_adds (hash_size s1) adds"
    using Cons.prems(2) hs by (simp add: valid_adds_def)
  ultimately show ?case using r by (rule Cons.IH)
qed

lemma built_valid_store:
  assumes "lsh_init hs b = Inr s0" and "add_all s0 adds = Inr s" and "valid_adds hs adds"
  shows "valid_store s" and "hash_size s = hs"
proof -
  have f: "hash_size s0 = hs" "signatures s0 = []" using lsh_init_fields [OF assms(1)] by simp_all
  then have "valid_store s0" by (simp add: valid_store_def)
  then show "valid_store s" using assms(2,3) f by (auto intro: add_all_valid_store)
  show "hash_size s = hs" using add_all_fields [OF assms(2)] f by simp
qed

lemma same_store_valid: "same_store s t \<Longrightarrow> valid_store s \<Longrightarrow> valid_store t"
  by (simp add: same_store_def valid_store_def)

lemma calculate_similarity_nonneg:
  assumes v: "valid_store s" and hs: "hash_size s \<noteq> 0"
    and c: "calculate_similarity s p = Inr ((a, b, sim), t)"
  shows "0 \<le> sim"
proof (cases "map_of (signatures s) (fst p) = None \<or> map_of (signatures s) (snd p) = None")
  case True
  with c show ?thesis
    by (auto simp: calculate_similarity_def split: prod.splits option.splits)
next
  case False
  then obtain pa pb where
    pa: "map_of (signatures s) (fst p) = Some pa" and
    pb: "map_of (signatures s) (snd p) = Some pb"
    by auto
  from v pa pb obtain sa sb where
    sa: "length sa = nat (hash_size s ^ 2)" "pa = packbits sa" and
    sb: "length sb = nat (hash_size s ^ 2)" "pb = packbits sb"
    unfolding valid_store_def by blast
  let ?n = "hash_size s ^ 2"
  let ?d = "count_differing sa sb"
  have len: "length sa = length sb" using sa sb by simp
  have n: "0 < ?n" using hs by simp
  from c pa pb sa sb len have sim: "sim = of_int (?n - int ?d) / of_int ?n"
    by (auto simp: calculate_similarity_def count_differing_unpacked
        split: prod.splits if_splits)
  have "int ?d \<le> ?n" using count_differing_le [of sa sb] sa n by linarith
  then have "0 \<le> ?n - int ?d" by simp
  then have "0 \<le> (of_int (?n - int ?d) :: rat)" by (rule of_int_nonneg)
  moreover have "0 < (of_int ?n :: rat)" using n by (simp only: of_int_0_less_iff)
  ultimately show ?thesis unfolding sim by (rule divide_nonneg_pos)
qed

lemma label_pair_chain:
  assumes "label_pair threshold collect_scores (a, b, sim) s = Inr v"
    and "threshold \<le> sim"
    and "map_of (labels s) a = Some l \<or> (map_of (labels s) a = None \<and> l = label_counter s)"
    and "map_of (labels s) b = None \<or> map_of (labels s) b = Some l"
  shows "map_of (labels v) a = Some l \<and> map_of (labels v) b = Some l
       \<and> (\<forall>x. map_of (labels s) x = None \<or> map_of (labels s) x = Some l \<longrightarrow>
              map_of (labels v) x = None \<or> map_of (labels v) x = Some l)"
  using assms
  by (auto simp: label_pair_def has_key_def update_conv' Let_def
      split: if_splits option.splits)

lemma walk_pairs_chain:
  assumes "valid_store s" and "hash_size s \<noteq> 0" and "threshold \<le> 0"
    and "walk_pairs threshold collect_scores s (zip (m # ms) ms) = Inr t"
    and "map_of (labels s) m = Some l \<or> (map_of (labels s) m = None \<and> l = label_counter s)"
    and "\<forall>x \<in> set ms. map_of (labels s) x = None \<or> map_of (labels s) x = Some l"
    and "ms \<noteq> [] \<or> map_of (labels s) m = Some l"
  shows "\<forall>x \<in> set (m # ms). map_of (labels t) x = Some l"
  using assms
proof (induction ms arbitrary: m s)
  case Nil
  then show ?case by simp
next
  case (Cons m1 ms)
  from Cons.prems(4) obtain r s1 s2 where
    c: "calculate_similarity s (m, m1) = Inr (r, s1)" and
    lp: "label_pair threshold collect_scores r s1 = Inr s2" and
    w: "walk_pairs threshold collect_scores s2 (zip (m1 # ms) ms) = Inr t"
    by (auto split: sum.splits)
  obtain sim where r: "r = (m, m1, sim)"
    using calculate_similarity_labels [OF c] by (cases r) auto
  have "0 \<le> sim" using Cons.prems(1,2) c unfolding r by (rule calculate_similarity_nonneg)
  with Cons.prems(3) have th: "threshold \<le> sim" by simp
  have l1: "labels s1 = labels s" "label_counter s1 = label_counter s"
    using calculate_similarity_labels [OF c] by simp_all
  have pa: "map_of (labels s1) m = Some l
      \<or> (map_of (labels s1) m = None \<and> l = label_counter s1)"
    using Cons.prems(5) l1 by simp
  have pb: "map_of (labels s1) m1 = None \<or> map_of (labels s1) m1 = Some l"
    using Cons.prems(6) l1 by simp
  from label_pair_chain [OF lp [unfolded r] th pa pb] have
    m: "map_of (labels s2) m = Some l" and m1: "map_of (labels s2) m1 = Some l" and
    keep: "\<forall>x. map_of (labels s1) x = None \<or> map_of (labels s1) x = Some l \<longrightarrow>
              map_of (labels s2) x = None \<or> map_of (labels s2) x = Some l"
    by blast+
  have e: "label_extension s s2"
    using calculate_similarity_extension [OF c] label_pair_extension [OF lp]
    by (rule label_extension_trans)
  then have v2: "valid_store s2" "hash_size s2 \<noteq> 0"
    using Cons.prems(1,2) same_store_valid [of s s2]
    by (auto simp: label_extension_def same_store_def)
  have rest: "\<forall>x \<in> set ms. map_of (labels s2) x = None \<or> map_of (labels s2) x = Some l"
    using Cons.prems(6) keep l1 by (metis list.set_intros(2))
  have "\<forall>x \<in> set (m1 # ms). map_of (labels t) x = Some l"
    using v2 Cons.prems(3) w disjI1 [OF m1] rest disjI2 [OF m1]
    by (rule Cons.IH)
  moreover have "map_of (labels t) m = Some l"
    using walk_pairs_extension [OF w] m unfolding label_extension_def by blast
  ultimately show ?case by simp
qed


text \<open>
  The case in which the chaining does collapse a bucket. In a run over valid signatures
  with threshold \<open>0.0\<close>, take a bucket with more than one member, none of them labelled
  when the walk reaches the bucket (the state \<open>t2\<close>). Then the consecutive-pair
  chaining gives all members of the bucket one common label, and they end the run with
  it.
\<close>

theorem zero_threshold_chains_bucket:
  assumes built: "lsh_init hs b = Inr s0" "add_all s0 adds = Inr s"
    and valid: "valid_adds hs adds" "hs \<noteq> 0"
    and run: "assign_labels 0 s = Inr (lbls, s')"
    and bucket: "hash_buckets_list s = bs1 @ (bk1 @ (key, ms) # bk2) # bs2"
    and before: "walk_bands 0 False s bs1 = Inr t1" "walk_buckets 0 False t1 bk1 = Inr t2"
    and unlabelled: "\<forall>m \<in> set ms. map_of (labels t2) m = None"
    and members: "1 < length ms"
  shows "\<exists>l. \<forall>m \<in> set ms. map_of lbls m = Some l"
proof -
  from run_from_bucket [OF run bucket before] obtain v where
    v: "walk_buckets 0 False t2 [(key, ms)] = Inr v" and
    lt: "later v s'" and l: "lbls = labels s'"
    by blast
  from members obtain m ms' where ms: "ms = m # ms'" and ne: "ms' \<noteq> []"
    by (cases ms) auto
  from v members ms have w: "walk_pairs 0 False t2 (zip (m # ms') ms') = Inr v"
    by (auto split: sum.splits)
  have "later s t1" using before(1) by (rule later_bands)
  moreover have "later t1 t2" using before(2) by (rule later_buckets)
  ultimately have "label_extension s t2" by (blast intro: later_trans later_extension)
  then have st: "same_store s t2" by (simp add: label_extension_def)
  have vs: "valid_store t2"
    using st built_valid_store(1) [OF built valid(1)] by (rule same_store_valid)
  have hs: "hash_size t2 \<noteq> 0"
    using st built_valid_store(2) [OF built valid(1)] valid(2) by (simp add: same_store_def)
  have "\<forall>x \<in> set (m # ms'). map_of (labels v) x = Some (label_counter t2)"
    using vs hs order_refl w
  proof (rule walk_pairs_chain)
    show "map_of (labels t2) m = Some (label_counter t2)
        \<or> (map_of (labels t2) m = None \<and> label_counter t2 = label_counter t2)"
      using unlabelled ms by simp
    show "\<forall>x \<in> set ms'. map_of (labels t2) x = None
        \<or> map_of (labels t2) x = Some (label_counter t2)"
      using unlabelled ms by simp
    show "ms' \<noteq> [] \<or> map_of (labels t2) m = Some (label_counter t2)"
      using ne by simp
  qed
  then have "\<forall>x \<in> set ms. map_of lbls x = Some (label_counter t2)"
    using later_extension [OF lt] l ms unfolding label_extension_def by blast
  then show ?thesis ..
qed

theorem zero_threshold_chains_bucket_witness:
  "lsh_init 2 2 = Inr example_new
   \<and> add_all example_new example_adds = Inr example_store
   \<and> valid_adds 2 example_adds
   \<and> assign_labels 0 example_store = Inr (labels example_done, example_done)
   \<and> hash_buckets_list example_store
       = [] @ ([([False, False], [''a''])] @ ([True, True], [''b'', ''c'']) # []) # 
         [[([True, True], [''a'', ''b'']), ([False, False], [''c''])]]
   \<and> walk_bands 0 False example_store [] = Inr example_store
   \<and> walk_buckets 0 False example_store [([False, False], [''a''])] = Inr example_store
   \<and> map_of (labels example_store) ''b'' = None
   \<and> map_of (labels example_store) ''c'' = None
   \<and> map_of (labels example_done) ''b'' = Some 0
   \<and> map_of (labels example_done) ''c'' = Some 0"
proof -
  have va: "valid_adds 2 example_adds" by code_simp
  have hs: "(2::int) \<noteq> 0" by simp
  have run: "assign_labels 0 example_store = Inr (labels example_done, example_done)"
    by code_simp
  have bucket: "hash_buckets_list example_store
       = [] @ ([([False, False], [''a''])] @ ([True, True], [''b'', ''c'']) # []) # 
         [[([True, True], [''a'', ''b'']), ([False, False], [''c''])]]"
    by code_simp
  have b1: "walk_bands 0 False example_store [] = Inr example_store" by simp
  have b2: "walk_buckets 0 False example_store [([False, False], [''a''])]
      = Inr example_store"
    by simp
  have ub: "map_of (labels example_store) ''b'' = None" by code_simp
  have uc: "map_of (labels example_store) ''c'' = None" by code_simp
  have un: "\<forall>m \<in> set [''b'', ''c'']. map_of (labels example_store) m = None"
    using ub uc by simp
  have len: "1 < length [''b'', ''c'']" by simp
  from zero_threshold_chains_bucket
    [OF example_init example_add_all va hs run bucket b1 b2 un len]
  obtain l where l: "\<forall>m \<in> set [''b'', ''c'']. map_of (labels example_done) m = Some l"
    by blast
  moreover have "map_of (labels example_done) ''b'' = Some 0" by code_simp
  ultimately have "map_of (labels example_done) ''b'' = Some 0"
    "map_of (labels example_done) ''c'' = Some 0"
    by simp_all
  with example_init example_add_all va run bucket b1 b2 ub uc show ?thesis by blast
qed

text \<open>
  Claim C7: with threshold \<open>0.0\<close> every image that shares a bucket with another image
  ends the run with the label of the other members of that bucket. The code does not do
  this, by the defect shown for claim C1: an unlabelled first member of a pair draws a
  fresh label although the second member has a label already. With threshold \<open>0.0\<close> in
  the example run, \<open>a\<close> and \<open>b\<close> share the bucket \<open>[a, b]\<close> of the second band and
  their pair passes the threshold, but \<open>b\<close> was labelled 0 in the first band together
  with \<open>c\<close>, and \<open>a\<close> ends the run with the label 1.
\<close>

theorem zero_threshold_counterexample:
  "lsh_init 2 2 = Inr example_new
   \<and> add_all example_new example_adds = Inr example_store
   \<and> ([True, True], [''a'', ''b'']) \<in> set (hash_buckets_list example_store ! 1)
   \<and> assign_labels 0 example_store = Inr (labels example_done, example_done)
   \<and> map_of (labels example_done) ''a'' = Some 1
   \<and> map_of (labels example_done) ''b'' = Some 0
   \<and> map_of (labels example_done) ''a'' \<noteq> map_of (labels example_done) ''b''"
  by code_simp

section \<open>Every stored image gets one label\<close>

subsection \<open>The resolution returns on valid input\<close>

lemma calculate_similarity_returns:
  assumes "valid_store s" and "hash_size s \<noteq> 0"
  shows "\<exists>r t. calculate_similarity s p = Inr (r, t)"
proof (cases "map_of (signatures s) (fst p) = None \<or> map_of (signatures s) (snd p) = None")
  case True
  then show ?thesis
    by (auto simp: calculate_similarity_def split: prod.splits option.splits)
next
  case False
  then obtain pa pb where
    pa: "map_of (signatures s) (fst p) = Some pa" and
    pb: "map_of (signatures s) (snd p) = Some pb"
    by auto
  from assms(1) pa pb obtain sa sb where
    "length sa = nat (hash_size s ^ 2)" "pa = packbits sa"
    "length sb = nat (hash_size s ^ 2)" "pb = packbits sb"
    unfolding valid_store_def by blast
  then have "length (unpackbits pa) = length (unpackbits pb)"
    by (simp add: unpackbits_packbits)
  with pa pb assms(2) show ?thesis
    by (auto simp: calculate_similarity_def split: prod.splits)
qed

lemma label_pair_returns: "\<exists>v. label_pair threshold collect_scores r s = Inr v"
  by (auto simp: label_pair_def has_key_def update_conv' Let_def
      split: prod.splits option.splits)

lemma extension_valid:
  "label_extension s t \<Longrightarrow> valid_store s \<Longrightarrow> hash_size s \<noteq> 0
     \<Longrightarrow> valid_store t \<and> hash_size t \<noteq> 0"
  using same_store_valid [of s t] by (auto simp: label_extension_def same_store_def)

lemma walk_pairs_returns:
  "valid_store s \<Longrightarrow> hash_size s \<noteq> 0
     \<Longrightarrow> \<exists>t. walk_pairs threshold collect_scores s pairs = Inr t"
proof (induction pairs arbitrary: s)
  case Nil
  show ?case by simp
next
  case (Cons p pairs)
  from calculate_similarity_returns [OF Cons.prems] obtain r s1 where
    c: "calculate_similarity s p = Inr (r, s1)" by blast
  from label_pair_returns obtain s2 where
    l: "label_pair threshold collect_scores r s1 = Inr s2" by blast
  have "label_extension s s2"
    using calculate_similarity_extension [OF c] label_pair_extension [OF l]
    by (rule label_extension_trans)
  then have "valid_store s2 \<and> hash_size s2 \<noteq> 0" using Cons.prems by (rule extension_valid)
  then obtain t where "walk_pairs threshold collect_scores s2 pairs = Inr t"
    using Cons.IH by blast
  with c l show ?case by simp
qed

lemma walk_buckets_returns:
  "valid_store s \<Longrightarrow> hash_size s \<noteq> 0
     \<Longrightarrow> \<exists>t. walk_buckets threshold collect_scores s buckets = Inr t"
proof (induction buckets arbitrary: s)
  case Nil
  show ?case by simp
next
  case (Cons bucket buckets)
  obtain key ms where b: "bucket = (key, ms)" by (cases bucket)
  show ?case
  proof (cases "1 < length ms")
    case True
    from walk_pairs_returns [OF Cons.prems] obtain s1 where
      w: "walk_pairs threshold collect_scores s (zip ms (tl ms)) = Inr s1" by blast
    have "valid_store s1 \<and> hash_size s1 \<noteq> 0"
      using walk_pairs_extension [OF w] Cons.prems by (rule extension_valid)
    then obtain t where "walk_buckets threshold collect_scores s1 buckets = Inr t"
      using Cons.IH by blast
    with w b True show ?thesis by simp
  next
    case False
    with Cons.IH [OF Cons.prems] b show ?thesis by simp
  qed
qed

lemma walk_bands_returns:
  "valid_store s \<Longrightarrow> hash_size s \<noteq> 0
     \<Longrightarrow> \<exists>t. walk_bands threshold collect_scores s bs = Inr t"
proof (induction bs arbitrary: s)
  case Nil
  show ?case by simp
next
  case (Cons band bs)
  from walk_buckets_returns [OF Cons.prems] obtain s1 where
    w: "walk_buckets threshold collect_scores s band = Inr s1" by blast
  have "valid_store s1 \<and> hash_size s1 \<noteq> 0"
    using walk_buckets_extension [OF w] Cons.prems by (rule extension_valid)
  then obtain t where "walk_bands threshold collect_scores s1 bs = Inr t"
    using Cons.IH by blast
  with w show ?case by simp
qed

lemma assign_labels_returns:
  assumes "valid_store s" and "hash_size s \<noteq> 0"
  shows "\<exists>lbls t. assign_labels threshold s = Inr (lbls, t)"
proof -
  from walk_bands_returns [OF assms] obtain s1 where
    "walk_bands threshold False s (hash_buckets_list s) = Inr s1" by blast
  then show ?thesis
    by (simp add: assign_labels_def process_similarities_def Let_def)
qed

subsection \<open>Which ids are labelled\<close>

lemma keys_update: "fst ` set (AList.update k v al) = insert k (fst ` set al)"
  by (simp add: dom_update)

lemma label_pair_keys:
  assumes "label_pair threshold collect_scores (a, b, sim) s = Inr v"
  shows "fst ` set (labels v) \<subseteq> fst ` set (labels s) \<union> {a, b}"
proof -
  have "labels v = labels s
      \<or> labels v = AList.update a (label_counter s) (labels s)
      \<or> (\<exists>l. labels v = AList.update b l (labels s))
      \<or> (\<exists>l. labels v = AList.update b l (AList.update a (label_counter s) (labels s)))"
    using assms
    by (auto simp: label_pair_def has_key_def Let_def split: if_splits option.splits)
  then show ?thesis by (elim disjE exE; simp add: keys_update; blast)
qed

lemma walk_pairs_keys:
  "walk_pairs threshold collect_scores s pairs = Inr t
     \<Longrightarrow> fst ` set (labels t) \<subseteq> fst ` set (labels s) \<union> fst ` set pairs \<union> snd ` set pairs"
proof (induction pairs arbitrary: s)
  case Nil
  then show ?case by simp
next
  case (Cons p pairs)
  from Cons.prems obtain r s1 s2 where
    c: "calculate_similarity s p = Inr (r, s1)" and
    l: "label_pair threshold collect_scores r s1 = Inr s2" and
    w: "walk_pairs threshold collect_scores s2 pairs = Inr t"
    by (auto split: sum.splits)
  obtain sim where r: "r = (fst p, snd p, sim)"
    using calculate_similarity_labels [OF c] by (cases r) auto
  have "fst ` set (labels s2) \<subseteq> fst ` set (labels s) \<union> {fst p, snd p}"
    using label_pair_keys [OF l [unfolded r]] calculate_similarity_labels [OF c] by simp
  with Cons.IH [OF w] show ?case by auto
qed

lemma zip_tl_members: "fst ` set (zip ms (tl ms)) \<union> snd ` set (zip ms (tl ms)) \<subseteq> set ms"
proof -
  have "fst ` set (zip ms (tl ms)) \<subseteq> set ms" by (auto dest: set_zip_leftD)
  moreover have "snd ` set (zip ms (tl ms)) \<subseteq> set (tl ms)" by (auto dest: set_zip_rightD)
  moreover have "set (tl ms) \<subseteq> set ms" by (cases ms) auto
  ultimately show ?thesis by blast
qed

lemma walk_buckets_keys:
  "walk_buckets threshold collect_scores s buckets = Inr t
     \<Longrightarrow> fst ` set (labels t) \<subseteq> fst ` set (labels s) \<union> bucket_members [buckets]"
proof (induction buckets arbitrary: s)
  case Nil
  then show ?case by simp
next
  case (Cons bucket buckets)
  obtain key ms where b: "bucket = (key, ms)" by (cases bucket)
  have sub: "bucket_members [buckets] \<subseteq> bucket_members [bucket # buckets]"
    "set ms \<subseteq> bucket_members [bucket # buckets]"
    using b by (auto simp: bucket_members_def)
  show ?case
  proof (cases "1 < length ms")
    case True
    with Cons.prems b obtain s1 where
      w: "walk_pairs threshold collect_scores s (zip ms (tl ms)) = Inr s1" and
      r: "walk_buckets threshold collect_scores s1 buckets = Inr t"
      by (auto split: sum.splits)
    from walk_pairs_keys [OF w] zip_tl_members [of ms]
    have "fst ` set (labels s1) \<subseteq> fst ` set (labels s) \<union> set ms" by blast
    with Cons.IH [OF r] sub show ?thesis by blast
  next
    case False
    with Cons.prems b have "walk_buckets threshold collect_scores s buckets = Inr t" by simp
    from Cons.IH [OF this] sub show ?thesis by blast
  qed
qed

lemma walk_bands_keys:
  "walk_bands threshold collect_scores s bs = Inr t
     \<Longrightarrow> fst ` set (labels t) \<subseteq> fst ` set (labels s) \<union> bucket_members bs"
proof (induction bs arbitrary: s)
  case Nil
  then show ?case by simp
next
  case (Cons band bs)
  from Cons.prems obtain s1 where
    w: "walk_buckets threshold collect_scores s band = Inr s1" and
    r: "walk_bands threshold collect_scores s1 bs = Inr t"
    by (auto split: sum.splits)
  have "bucket_members (band # bs) = bucket_members [band] \<union> bucket_members bs"
    by (auto simp: bucket_members_def)
  with walk_buckets_keys [OF w] Cons.IH [OF r] show ?case by blast
qed

lemma label_all_remaining_keys:
  "fst ` set (labels (label_all_remaining s fps)) = fst ` set (labels s) \<union> set fps"
proof (induction fps arbitrary: s)
  case Nil
  show ?case by simp
next
  case (Cons fp fps)
  have "fst ` set (labels (label_remaining fp s)) = fst ` set (labels s) \<union> {fp}"
    by (auto simp: label_remaining_def has_key_def dom_update map_of_eq_None_iff)
  with Cons [of "label_remaining fp s"] show ?case by auto
qed


subsection \<open>The ids in the buckets are stored ids\<close>

lemma update_set_subset: "set (AList.update k v al) \<subseteq> insert (k, v) (set al)"
  by (induction al) auto

lemma bucket_append_members:
  "(\<Union>bucket \<in> set (bucket_append key fp d). set (snd bucket))
     \<subseteq> insert fp (\<Union>bucket \<in> set d. set (snd bucket))"
proof -
  let ?v = "(case map_of d key of None \<Rightarrow> [] | Some matched \<Rightarrow> matched) @ [fp]"
  have v: "set ?v \<subseteq> insert fp (\<Union>bucket \<in> set d. set (snd bucket))"
  proof (cases "map_of d key")
    case None
    then show ?thesis by simp
  next
    case (Some matched)
    then have "(key, matched) \<in> set d" by (rule map_of_SomeD)
    then have "set matched \<subseteq> (\<Union>bucket \<in> set d. set (snd bucket))" by force
    with Some show ?thesis by auto
  qed
  have "set (bucket_append key fp d) \<subseteq> insert (key, ?v) (set d)"
    unfolding bucket_append_def by (rule update_set_subset)
  then have "(\<Union>bucket \<in> set (bucket_append key fp d). set (snd bucket))
      \<subseteq> set ?v \<union> (\<Union>bucket \<in> set d. set (snd bucket))"
    by fastforce
  with v show ?thesis by blast
qed

lemma bucket_members_update:
  assumes "i < length bs"
    and "(\<Union>bucket \<in> set band. set (snd bucket))
           \<subseteq> insert fp (\<Union>bucket \<in> set (bs ! i). set (snd bucket))"
  shows "bucket_members (bs[i := band]) \<subseteq> insert fp (bucket_members bs)"
proof -
  have "set (bs[i := band]) \<subseteq> insert band (set bs)" by (rule set_update_subset_insert)
  then have "bucket_members (bs[i := band])
      \<subseteq> (\<Union>bucket \<in> set band. set (snd bucket)) \<union> bucket_members bs"
    unfolding bucket_members_def by blast
  moreover have "(\<Union>bucket \<in> set (bs ! i). set (snd bucket)) \<subseteq> bucket_members bs"
    using assms(1) unfolding bucket_members_def by (meson UN_upper nth_mem)
  ultimately show ?thesis using assms(2) by blast
qed

lemma add_bands_members:
  "add_bands s fp sg is = Inr t
     \<Longrightarrow> bucket_members (hash_buckets_list t)
           \<subseteq> insert fp (bucket_members (hash_buckets_list s))"
proof (induction "is" arbitrary: s)
  case Nil
  then show ?case by auto
next
  case (Cons i "is")
  let ?band = "bucket_append (py_slice (int i * rows s) ((int i + 1) * rows s) sg) fp
      (hash_buckets_list s ! i)"
  let ?s1 = "s\<lparr>hash_buckets_list := (hash_buckets_list s)[i := ?band]\<rparr>"
  from Cons.prems have i: "i < length (hash_buckets_list s)" and
    r: "add_bands ?s1 fp sg is = Inr t"
    by (auto split: if_splits)
  have "bucket_members (hash_buckets_list ?s1)
      \<subseteq> insert fp (bucket_members (hash_buckets_list s))"
    using bucket_members_update [OF i bucket_append_members] by simp
  with Cons.IH [OF r] show ?case by blast
qed

lemma add_signature_keys:
  assumes "add_signature s fp sg_opt = Inr t"
  shows "fst ` set (signatures t)
           = fst ` set (signatures s) \<union> (case sg_opt of None \<Rightarrow> {} | Some sg \<Rightarrow> {fp})"
    and "bucket_members (hash_buckets_list s) \<subseteq> fst ` set (signatures s)
           \<Longrightarrow> bucket_members (hash_buckets_list t) \<subseteq> fst ` set (signatures t)"
proof -
  show k: "fst ` set (signatures t)
      = fst ` set (signatures s) \<union> (case sg_opt of None \<Rightarrow> {} | Some sg \<Rightarrow> {fp})"
  proof (cases sg_opt)
    case None
    with assms show ?thesis by (simp add: add_signature_def)
  next
    case (Some sg)
    with assms show ?thesis by (simp add: add_signature_signatures keys_update)
  qed
  show "bucket_members (hash_buckets_list t) \<subseteq> fst ` set (signatures t)"
    if m: "bucket_members (hash_buckets_list s) \<subseteq> fst ` set (signatures s)"
  proof (cases sg_opt)
    case None
    with assms m show ?thesis by (simp add: add_signature_def)
  next
    case (Some sg)
    with assms have "bucket_members (hash_buckets_list t)
        \<subseteq> insert fp (bucket_members (hash_buckets_list s))"
      by (auto simp: add_signature_def dest!: add_bands_members)
    with m k Some show ?thesis by auto
  qed
qed

lemma add_all_keys:
  assumes "add_all s adds = Inr t"
  shows "fst ` set (signatures t)
           = fst ` set (signatures s) \<union> {fp. \<exists>sg. (fp, Some sg) \<in> set adds}"
    and "bucket_members (hash_buckets_list s) \<subseteq> fst ` set (signatures s)
           \<Longrightarrow> bucket_members (hash_buckets_list t) \<subseteq> fst ` set (signatures t)"
  using assms
proof (induction adds arbitrary: s)
  case Nil
  {
    case 1
    then show ?case by simp
  next
    case 2
    then show ?case by simp
  }
next
  case (Cons a adds)
  obtain fp sg_opt where a: "a = (fp, sg_opt)" by (cases a)
  {
    case 1
    from 1 a obtain s1 where
      s1: "add_signature s fp sg_opt = Inr s1" and r: "add_all s1 adds = Inr t"
      by (auto split: sum.splits)
    from add_signature_keys(1) [OF s1] Cons.IH(1) [OF r] a show ?case
      by (cases sg_opt) auto
  next
    case 2
    from 2 a obtain s1 where
      s1: "add_signature s fp sg_opt = Inr s1" and r: "add_all s1 adds = Inr t"
      by (auto split: sum.splits)
    from add_signature_keys(2) [OF s1 2(1)] Cons.IH(2) [OF _ r] show ?case by blast
  }
qed


lemma built_keys:
  assumes "lsh_init hs b = Inr s0" and "add_all s0 adds = Inr s"
  shows "fst ` set (signatures s) = {fp. \<exists>sg. (fp, Some sg) \<in> set adds}"
    and "bucket_members (hash_buckets_list s) \<subseteq> fst ` set (signatures s)"
proof -
  have f: "signatures s0 = []" "hash_buckets_list s0 = replicate (nat b) []"
    using lsh_init_fields [OF assms(1)] by simp_all
  show "fst ` set (signatures s) = {fp. \<exists>sg. (fp, Some sg) \<in> set adds}"
    using add_all_keys(1) [OF assms(2)] f by simp
  have "bucket_members (hash_buckets_list s0) \<subseteq> fst ` set (signatures s0)"
    using f by (auto simp: bucket_members_def)
  then show "bucket_members (hash_buckets_list s) \<subseteq> fst ` set (signatures s)"
    by (rule add_all_keys(2) [OF assms(2)])
qed

text \<open>
  Claim C2. Take a processor as \<open>__init__\<close> and a sequence of insertions leave it; its
  input set is the set of ids inserted with a signature (an insertion whose signature is
  absent stores nothing). Whenever \<open>assign_labels\<close> returns, the keys of the returned
  mapping are pairwise different, they are exactly the ids of the input set, and every
  such id has exactly one label. On valid signatures, with \<open>hash_size\<close> not zero,
  \<open>assign_labels\<close> does return.
\<close>

theorem assign_labels_partitions_input:
  assumes "lsh_init hs b = Inr s0" and "add_all s0 adds = Inr s"
  shows "(valid_adds hs adds \<and> hs \<noteq> 0 \<longrightarrow>
            (\<exists>lbls s'. assign_labels threshold s = Inr (lbls, s')))
       \<and> (\<forall>lbls s'. assign_labels threshold s = Inr (lbls, s') \<longrightarrow>
            distinct (map fst lbls)
            \<and> fst ` set lbls = {fp. \<exists>sg. (fp, Some sg) \<in> set adds}
            \<and> (\<forall>fp sg. (fp, Some sg) \<in> set adds \<longrightarrow> (\<exists>!l. (fp, l) \<in> set lbls)))"
proof (intro conjI impI allI)
  assume "valid_adds hs adds \<and> hs \<noteq> 0"
  then have "valid_store s" and "hash_size s \<noteq> 0"
    using built_valid_store [OF assms] by simp_all
  then show "\<exists>lbls s'. assign_labels threshold s = Inr (lbls, s')"
    by (rule assign_labels_returns)
next
  fix lbls s'
  assume run: "assign_labels threshold s = Inr (lbls, s')"
  from run obtain s1 where
    p: "walk_bands threshold False s (hash_buckets_list s) = Inr s1" and
    s': "s' = label_all_remaining s1 (map fst (signatures s1))" and l: "lbls = labels s'"
    by (auto simp: assign_labels_def process_similarities_def
        assign_labels_remaining_images_def Let_def split: sum.splits)
  have e: "label_extension s s'"
    using assign_labels_later [OF run] by (blast intro: later_extension)
  have "distinct (map fst (labels s))" using built_labels_empty(1) [OF assms] by simp
  with e l show d: "distinct (map fst lbls)" by (simp add: label_extension_def)
  have sig: "signatures s1 = signatures s"
    using walk_bands_extension [OF p] by (simp add: label_extension_def same_store_def)
  have "fst ` set (labels s1) \<subseteq> bucket_members (hash_buckets_list s)"
    using walk_bands_keys [OF p] built_labels_empty(1) [OF assms] by simp
  then have "fst ` set (labels s1) \<subseteq> fst ` set (signatures s)"
    using built_keys(2) [OF assms] by blast
  then have "fst ` set lbls = fst ` set (signatures s)"
    unfolding l s' label_all_remaining_keys sig by auto
  then show k: "fst ` set lbls = {fp. \<exists>sg. (fp, Some sg) \<in> set adds}"
    using built_keys(1) [OF assms] by simp
  fix fp sg
  assume "(fp, Some sg) \<in> set adds"
  with k have "fp \<in> fst ` set lbls" by blast
  then obtain l' where "(fp, l') \<in> set lbls" by auto
  moreover have "l'' = l'" if "(fp, l'') \<in> set lbls" for l''
    using d that \<open>(fp, l') \<in> set lbls\<close> by (rule eq_key_imp_eq_value)
  ultimately show "\<exists>!l. (fp, l) \<in> set lbls" by blast
qed

theorem assign_labels_partitions_input_witness:
  "lsh_init 2 2 = Inr example_new
   \<and> add_all example_new example_adds = Inr example_store
   \<and> valid_adds 2 example_adds
   \<and> (\<exists>lbls s'. assign_labels (1 / 2) example_store = Inr (lbls, s'))
   \<and> assign_labels (1 / 2) example_store = Inr (labels example_done, example_done)
   \<and> distinct (map fst (labels example_done))
   \<and> fst ` set (labels example_done) = {fp. \<exists>sg. (fp, Some sg) \<in> set example_adds}
   \<and> (\<exists>!l. (''a'', l) \<in> set (labels example_done))"
proof -
  have va: "valid_adds 2 example_adds" by code_simp
  have run: "assign_labels (1 / 2) example_store = Inr (labels example_done, example_done)"
    by code_simp
  have a: "(''a'', Some [False, False, True, True]) \<in> set example_adds"
    by (simp add: example_adds_def)
  have hs: "(2::int) \<noteq> 0" by simp
  from assign_labels_partitions_input [OF example_init example_add_all, of "1 / 2"] va hs
  have r: "\<exists>lbls s'. assign_labels (1 / 2) example_store = Inr (lbls, s')"
    by blast
  from assign_labels_partitions_input [OF example_init example_add_all, of "1 / 2"] run a
  have "distinct (map fst (labels example_done))"
    and "fst ` set (labels example_done) = {fp. \<exists>sg. (fp, Some sg) \<in> set example_adds}"
    and "\<exists>!l. (''a'', l) \<in> set (labels example_done)"
    by blast+
  with example_init example_add_all va run r show ?thesis by blast
qed

section \<open>A missing signature does not stop the resolution\<close>

lemma calculate_similarity_missing:
  assumes "map_of (signatures s) a = None \<or> map_of (signatures s) b = None"
  shows "calculate_similarity s (a, b)
           = Inr ((a, b, 0), s\<lparr>log := log s @ [SignaturesNotFound a b]\<rparr>)"
  using assms by (auto simp: calculate_similarity_def split: option.splits)

lemma calculate_similarity_returns_same_store:
  assumes "same_store s t" and "calculate_similarity s p = Inr (r, u)"
  shows "\<exists>r' u'. calculate_similarity t p = Inr (r', u')"
  using assms
  by (auto simp: calculate_similarity_def same_store_def
      split: prod.splits option.splits if_splits)

lemma walk_pairs_returns_if:
  assumes "\<forall>p \<in> set pairs. \<exists>r u. calculate_similarity s p = Inr (r, u)"
  shows "\<exists>t. walk_pairs threshold collect_scores s pairs = Inr t"
  using assms
proof (induction pairs arbitrary: s)
  case Nil
  show ?case by simp
next
  case (Cons p pairs)
  from Cons.prems obtain r s1 where c: "calculate_similarity s p = Inr (r, s1)" by auto
  from label_pair_returns obtain s2 where
    l: "label_pair threshold collect_scores r s1 = Inr s2" by blast
  have "label_extension s s2"
    using calculate_similarity_extension [OF c] label_pair_extension [OF l]
    by (rule label_extension_trans)
  then have st: "same_store s s2" by (simp add: label_extension_def)
  have "\<forall>q \<in> set pairs. \<exists>r u. calculate_similarity s2 q = Inr (r, u)"
    using Cons.prems calculate_similarity_returns_same_store [OF st] by auto
  from Cons.IH [OF this] obtain t where
    "walk_pairs threshold collect_scores s2 pairs = Inr t" ..
  with c l show ?case by simp
qed

lemma walk_buckets_returns_if:
  assumes "\<forall>p \<in> set (candidate_pairs [buckets]). \<exists>r u. calculate_similarity s p = Inr (r, u)"
  shows "\<exists>t. walk_buckets threshold collect_scores s buckets = Inr t"
  using assms
proof (induction buckets arbitrary: s)
  case Nil
  show ?case by simp
next
  case (Cons bucket buckets)
  obtain key ms where b: "bucket = (key, ms)" by (cases bucket)
  have rest: "set (candidate_pairs [buckets]) \<subseteq> set (candidate_pairs [bucket # buckets])"
    by (auto simp: candidate_pairs_def)
  show ?case
  proof (cases "1 < length ms")
    case True
    then have "set (zip ms (tl ms)) \<subseteq> set (candidate_pairs [bucket # buckets])"
      using b by (auto simp: candidate_pairs_def)
    with Cons.prems have "\<forall>p \<in> set (zip ms (tl ms)). \<exists>r u. calculate_similarity s p = Inr (r, u)"
      by blast
    from walk_pairs_returns_if [OF this] obtain s1 where
      w: "walk_pairs threshold collect_scores s (zip ms (tl ms)) = Inr s1" ..
    have st: "same_store s s1"
      using walk_pairs_extension [OF w] by (simp add: label_extension_def)
    have "\<forall>q \<in> set (candidate_pairs [buckets]). \<exists>r u. calculate_similarity s1 q = Inr (r, u)"
      using Cons.prems rest calculate_similarity_returns_same_store [OF st] by blast
    from Cons.IH [OF this] obtain t where
      "walk_buckets threshold collect_scores s1 buckets = Inr t" ..
    with w b True show ?thesis by simp
  next
    case False
    have "\<forall>q \<in> set (candidate_pairs [buckets]). \<exists>r u. calculate_similarity s q = Inr (r, u)"
      using Cons.prems rest by blast
    from Cons.IH [OF this] b False show ?thesis by simp
  qed
qed

lemma walk_bands_returns_if:
  assumes "\<forall>p \<in> set (candidate_pairs bs). \<exists>r u. calculate_similarity s p = Inr (r, u)"
  shows "\<exists>t. walk_bands threshold collect_scores s bs = Inr t"
  using assms
proof (induction bs arbitrary: s)
  case Nil
  show ?case by simp
next
  case (Cons band bs)
  have split: "set (candidate_pairs (band # bs))
      = set (candidate_pairs [band]) \<union> set (candidate_pairs bs)"
    by (simp add: candidate_pairs_def)
  with Cons.prems have
    "\<forall>p \<in> set (candidate_pairs [band]). \<exists>r u. calculate_similarity s p = Inr (r, u)"
    by blast
  from walk_buckets_returns_if [OF this] obtain s1 where
    w: "walk_buckets threshold collect_scores s band = Inr s1" ..
  have st: "same_store s s1"
    using walk_buckets_extension [OF w] by (simp add: label_extension_def)
  have "\<forall>q \<in> set (candidate_pairs bs). \<exists>r u. calculate_similarity s1 q = Inr (r, u)"
    using Cons.prems split calculate_similarity_returns_same_store [OF st] by blast
  from Cons.IH [OF this] obtain t where
    "walk_bands threshold collect_scores s1 bs = Inr t" ..
  with w show ?case by simp
qed

lemma missing_signature_walk_continues:
  assumes "map_of (signatures s) img_a = None \<or> map_of (signatures s) img_b = None"
  shows "(\<exists>s2. label_pair threshold collect_scores (img_a, img_b, 0)
                  (s\<lparr>log := log s @ [SignaturesNotFound img_a img_b]\<rparr>) = Inr s2
              \<and> same_store s s2
              \<and> walk_pairs threshold collect_scores s ((img_a, img_b) # pairs)
                  = walk_pairs threshold collect_scores s2 pairs)"
proof -
  let ?s1 = "s\<lparr>log := log s @ [SignaturesNotFound img_a img_b]\<rparr>"
  have c: "calculate_similarity s (img_a, img_b) = Inr ((img_a, img_b, 0), ?s1)"
    using assms by (rule calculate_similarity_missing)
  from label_pair_returns obtain s2 where
    l: "label_pair threshold collect_scores (img_a, img_b, 0) ?s1 = Inr s2" by blast
  have "label_extension s s2"
    using calculate_similarity_extension [OF c] label_pair_extension [OF l]
    by (rule label_extension_trans)
  then have "same_store s s2" by (simp add: label_extension_def)
  moreover have "walk_pairs threshold collect_scores s ((img_a, img_b) # pairs)
      = walk_pairs threshold collect_scores s2 pairs"
    by (simp add: c l)
  ultimately show ?thesis
    using l by blast
qed

lemma all_missing_resolution_returns:
  assumes all: "\<forall>(a, b) \<in> set (candidate_pairs (hash_buckets_list s)).
      map_of (signatures s) a = None \<or> map_of (signatures s) b = None"
  shows "(\<exists>t. process_similarities threshold collect_scores s = Inr t)
            \<and> (\<exists>lbls t. assign_labels threshold s = Inr (lbls, t))"
proof -
  have "\<forall>p \<in> set (candidate_pairs (hash_buckets_list s)).
      \<exists>r u. calculate_similarity s p = Inr (r, u)"
  proof
    fix p
    assume p: "p \<in> set (candidate_pairs (hash_buckets_list s))"
    obtain a b where ab: "p = (a, b)" by (cases p)
    with all p have "map_of (signatures s) a = None \<or> map_of (signatures s) b = None"
      by auto
    from calculate_similarity_missing [OF this] ab
    show "\<exists>r u. calculate_similarity s p = Inr (r, u)" by blast
  qed
  then have w: "\<exists>t. walk_bands threshold' cs' s (hash_buckets_list s) = Inr t"
    for threshold' cs'
    by (rule walk_bands_returns_if)
  have a: "\<exists>t. process_similarities threshold collect_scores s = Inr t"
    using w by (simp add: process_similarities_def)
  from w [of threshold False] obtain t where
    "walk_bands threshold False s (hash_buckets_list s) = Inr t" ..
  then have "\<exists>lbls t. assign_labels threshold s = Inr (lbls, t)"
    by (simp add: assign_labels_def process_similarities_def Let_def)
  with a show ?thesis ..
qed

text \<open>
  Claim C6. If one of the two ids of a pair has no entry in the signature store, then
  \<open>calculate_similarity\<close> returns the score \<open>0.0\<close> for the pair and appends one entry to
  the log, and nothing is raised. The pair step that follows returns as well, so the walk
  over a list of pairs that begins with such a pair goes on with the remaining pairs,
  with the store unchanged. A resolution in which every scored pair has a missing id
  returns: neither \<open>process_similarities\<close> nor \<open>assign_labels\<close> raises.
\<close>

theorem missing_signature_scores_zero:
  assumes "map_of (signatures s) img_a = None \<or> map_of (signatures s) img_b = None"
  shows "calculate_similarity s (img_a, img_b)
           = Inr ((img_a, img_b, 0), s\<lparr>log := log s @ [SignaturesNotFound img_a img_b]\<rparr>)
       \<and> (\<exists>s2. label_pair threshold collect_scores (img_a, img_b, 0)
                  (s\<lparr>log := log s @ [SignaturesNotFound img_a img_b]\<rparr>) = Inr s2
              \<and> same_store s s2
              \<and> walk_pairs threshold collect_scores s ((img_a, img_b) # pairs)
                  = walk_pairs threshold collect_scores s2 pairs)
       \<and> ((\<forall>(a, b) \<in> set (candidate_pairs (hash_buckets_list s)).
              map_of (signatures s) a = None \<or> map_of (signatures s) b = None) \<longrightarrow>
            (\<exists>t. process_similarities threshold collect_scores s = Inr t)
            \<and> (\<exists>lbls t. assign_labels threshold s = Inr (lbls, t)))"
  using calculate_similarity_missing [OF assms]
    missing_signature_walk_continues [OF assms]
    all_missing_resolution_returns
  by blast


theorem missing_signature_scores_zero_witness:
  "map_of (signatures example_orphans) ''b'' = None
   \<and> calculate_similarity example_orphans (''a'', ''b'')
       = Inr ((''a'', ''b'', 0), example_orphans\<lparr>log := [SignaturesNotFound ''a'' ''b'']\<rparr>)
   \<and> candidate_pairs (hash_buckets_list example_orphans) = [(''b'', ''c''), (''a'', ''b'')]
   \<and> map_of (signatures example_orphans) ''c'' = None
   \<and> (\<exists>t. process_similarities (1 / 2) False example_orphans = Inr t)
   \<and> (\<exists>lbls t. assign_labels (1 / 2) example_orphans = Inr (lbls, t))"
proof -
  have m: "map_of (signatures example_orphans) ''a'' = None
      \<or> map_of (signatures example_orphans) ''b'' = None"
    by code_simp
  have b: "map_of (signatures example_orphans) ''b'' = None" by code_simp
  have lg: "log example_orphans = []" by code_simp
  have all: "\<forall>(a, b) \<in> set (candidate_pairs (hash_buckets_list example_orphans)).
      map_of (signatures example_orphans) a = None
      \<or> map_of (signatures example_orphans) b = None"
    by code_simp
  from missing_signature_scores_zero [OF m, of "1 / 2" False "[]"] all
  have "calculate_similarity example_orphans (''a'', ''b'')
       = Inr ((''a'', ''b'', 0),
           example_orphans\<lparr>log := log example_orphans @ [SignaturesNotFound ''a'' ''b'']\<rparr>)"
    and "\<exists>t. process_similarities (1 / 2) False example_orphans = Inr t"
    and "\<exists>lbls t. assign_labels (1 / 2) example_orphans = Inr (lbls, t)"
    by blast+
  moreover have "candidate_pairs (hash_buckets_list example_orphans)
      = [(''b'', ''c''), (''a'', ''b'')]"
    by code_simp
  moreover have "map_of (signatures example_orphans) ''c'' = None" by code_simp
  ultimately show ?thesis using b lg by simp
qed

section \<open>Missing input\<close>

text \<open>
  Claim C8. When \<open>os.listdir\<close> finds no directory at \<open>input_dir\<close>, or the directory has no
  entry whose lower-cased name ends in \<open>.png\<close>, \<open>.jpg\<close> or \<open>.jpeg\<close>, then
  \<open>find_duplicates\<close> returns an empty label mapping and an empty score list, whatever
  the other arguments are; the error is logged and nothing is raised.
\<close>

theorem find_duplicates_missing_input:
  assumes "listdir input_dir = NoSuchDirectory
         \<or> (\<exists>fs. listdir input_dir = Entries fs \<and> filter is_image_name fs = [])"
  shows "find_duplicates listdir calculate_signature input_dir threshold hs b gen_scores
           = Inr (([], []),
                  (if listdir input_dir = NoSuchDirectory
                   then [DirectoryNotFound input_dir] else [])
                  @ [ErrorLogged ValueError])"
  using assms
  by (auto simp: find_duplicates_def find_duplicates_body_def get_image_files_def)

theorem find_duplicates_missing_input_witness:
  "find_duplicates (\<lambda>d. NoSuchDirectory) (\<lambda>f. None) ''data'' (4 / 5) 16 16 True
     = Inr (([], []), [DirectoryNotFound ''data'', ErrorLogged ValueError])
   \<and> filter is_image_name [''notes.txt'', ''png''] = []
   \<and> find_duplicates (\<lambda>d. Entries [''notes.txt'', ''png'']) (\<lambda>f. None) ''data''
         (4 / 5) 16 16 True
     = Inr (([], []), [ErrorLogged ValueError])"
proof -
  have e: "filter is_image_name [''notes.txt'', ''png''] = []" by code_simp
  have "find_duplicates (\<lambda>d. NoSuchDirectory) (\<lambda>f. None) ''data'' (4 / 5) 16 16 True
     = Inr (([], []), [DirectoryNotFound ''data'', ErrorLogged ValueError])"
    using find_duplicates_missing_input
      [where listdir = "\<lambda>d. NoSuchDirectory" and input_dir = "''data''"
         and calculate_signature = "\<lambda>f. None" and threshold = "4 / 5"
         and hs = 16 and b = 16 and gen_scores = True]
    by simp
  moreover have
    "find_duplicates (\<lambda>d. Entries [''notes.txt'', ''png'']) (\<lambda>f. None) ''data''
         (4 / 5) 16 16 True
     = Inr (([], []), [ErrorLogged ValueError])"
    using find_duplicates_missing_input
      [where listdir = "\<lambda>d. Entries [''notes.txt'', ''png'']" and input_dir = "''data''"
         and calculate_signature = "\<lambda>f. None" and threshold = "4 / 5"
         and hs = 16 and b = 16 and gen_scores = True] e
    by simp
  ultimately show ?thesis using e by simp
qed

section \<open>Bands that do not divide the signature\<close>

subsection \<open>Insertion returns\<close>

lemma add_bands_returns:
  "\<forall>i \<in> set is. i < length (hash_buckets_list s)
     \<Longrightarrow> \<exists>t. add_bands s fp sg is = Inr t
              \<and> length (hash_buckets_list t) = length (hash_buckets_list s)"
proof (induction "is" arbitrary: s)
  case Nil
  show ?case by simp
next
  case (Cons i "is")
  let ?s1 = "s\<lparr>hash_buckets_list :=
      (hash_buckets_list s)
        [i := bucket_append (py_slice (int i * rows s) ((int i + 1) * rows s) sg) fp
               (hash_buckets_list s ! i)]\<rparr>"
  have "\<forall>j \<in> set is. j < length (hash_buckets_list ?s1)" using Cons.prems by simp
  from Cons.IH [OF this] Cons.prems show ?case by simp
qed

lemma add_signature_returns:
  assumes "length (hash_buckets_list s) = nat (bands s)"
  shows "\<exists>t. add_signature s fp sg_opt = Inr t
            \<and> length (hash_buckets_list t) = nat (bands t)"
proof (cases sg_opt)
  case None
  with assms show ?thesis by (simp add: add_signature_def)
next
  case (Some sg)
  let ?s1 = "s\<lparr>signatures := AList.update fp (packbits sg) (signatures s)\<rparr>"
  have "\<forall>i \<in> set [0..<nat (bands s)]. i < length (hash_buckets_list ?s1)"
    using assms by simp
  from add_bands_returns [OF this] obtain t where
    t: "add_bands ?s1 fp sg [0..<nat (bands s)] = Inr t"
    "length (hash_buckets_list t) = length (hash_buckets_list ?s1)"
    by blast
  have "bands t = bands s" using add_bands_fields [OF t(1)] by simp
  with t assms Some show ?thesis by (simp add: add_signature_def)
qed

lemma add_all_returns:
  "length (hash_buckets_list s) = nat (bands s)
     \<Longrightarrow> \<exists>t. add_all s adds = Inr t \<and> length (hash_buckets_list t) = nat (bands t)"
proof (induction adds arbitrary: s)
  case Nil
  then show ?case by simp
next
  case (Cons a adds)
  obtain fp sg_opt where a: "a = (fp, sg_opt)" by (cases a)
  from add_signature_returns [OF Cons.prems] obtain s1 where
    s1: "add_signature s fp sg_opt = Inr s1"
    "length (hash_buckets_list s1) = nat (bands s1)"
    by blast
  from Cons.IH [OF s1(2)] s1(1) a show ?case by simp
qed

subsection \<open>Only the first \<open>bands * rows\<close> bits are bucket keys\<close>

lemma py_slice_nonneg:
  assumes "0 \<le> a" and "0 \<le> c"
  shows "py_slice a c xs = drop (nat a) (take (nat c) xs)"
proof -
  have a: "slice_index (int (length xs)) a = min (nat a) (length xs)"
    using assms(1) unfolding slice_index_def by auto
  have c: "slice_index (int (length xs)) c = min (nat c) (length xs)"
    using assms(2) unfolding slice_index_def by auto
  have "take (min (nat c) (length xs)) xs = take (nat c) xs"
    by (simp add: min_def)
  moreover have "drop (min (nat a) (length xs)) (take (nat c) xs)
      = drop (nat a) (take (nat c) xs)"
    by (simp add: min_def)
  ultimately show ?thesis unfolding py_slice_def Let_def a c by simp
qed

lemma py_slice_prefix:
  assumes "0 \<le> a" and "0 \<le> c" and "nat c \<le> n" and "take n xs = take n ys"
  shows "py_slice a c xs = py_slice a c ys"
proof -
  have "take (nat c) xs = take (nat c) (take n xs)" using assms(3) by (simp add: min_def)
  also have "\<dots> = take (nat c) (take n ys)" using assms(4) by simp
  also have "\<dots> = take (nat c) ys" using assms(3) by (simp add: min_def)
  finally show ?thesis using assms(1,2) by (simp add: py_slice_nonneg)
qed

lemma add_bands_same_buckets:
  assumes "add_bands s fp sg is = Inr t" and "add_bands s' fp sg' is = Inr t'"
    and "hash_buckets_list s = hash_buckets_list s'" and "rows s = rows s'"
    and "\<forall>i \<in> set is. py_slice (int i * rows s) ((int i + 1) * rows s) sg
                       = py_slice (int i * rows s) ((int i + 1) * rows s) sg'"
  shows "hash_buckets_list t = hash_buckets_list t'"
  using assms
proof (induction "is" arbitrary: s s')
  case Nil
  then show ?case by simp
next
  case (Cons i "is")
  let ?k = "py_slice (int i * rows s) ((int i + 1) * rows s) sg"
  let ?s1 = "s\<lparr>hash_buckets_list :=
      (hash_buckets_list s)[i := bucket_append ?k fp (hash_buckets_list s ! i)]\<rparr>"
  let ?s1' = "s'\<lparr>hash_buckets_list :=
      (hash_buckets_list s)[i := bucket_append ?k fp (hash_buckets_list s ! i)]\<rparr>"
  from Cons.prems(1) have r: "add_bands ?s1 fp sg is = Inr t" by (auto split: if_splits)
  have "py_slice (int i * rows s') ((int i + 1) * rows s') sg' = ?k"
    using Cons.prems(4,5) by simp
  with Cons.prems(2,3) have r': "add_bands ?s1' fp sg' is = Inr t'"
    by (auto split: if_splits)
  show ?case
    using r r'
  proof (rule Cons.IH)
    show "hash_buckets_list ?s1 = hash_buckets_list ?s1'" by simp
    show "rows ?s1 = rows ?s1'" using Cons.prems(4) by simp
    show "\<forall>i \<in> set is. py_slice (int i * rows ?s1) ((int i + 1) * rows ?s1) sg
        = py_slice (int i * rows ?s1) ((int i + 1) * rows ?s1) sg'"
      using Cons.prems(5) by simp
  qed
qed

lemma add_signature_prefix:
  assumes t: "add_signature s fp (Some sg) = Inr t"
    and t': "add_signature s fp (Some sg') = Inr t'"
    and rows: "0 \<le> rows s"
    and prefix: "take (nat (bands s * rows s)) sg = take (nat (bands s * rows s)) sg'"
  shows "hash_buckets_list t = hash_buckets_list t'"
proof -
  let ?s1 = "s\<lparr>signatures := AList.update fp (packbits sg) (signatures s)\<rparr>"
  let ?s1' = "s\<lparr>signatures := AList.update fp (packbits sg') (signatures s)\<rparr>"
  have a: "add_bands ?s1 fp sg [0..<nat (bands s)] = Inr t"
    using t by (simp add: add_signature_def)
  have a': "add_bands ?s1' fp sg' [0..<nat (bands s)] = Inr t'"
    using t' by (simp add: add_signature_def)
  have "py_slice (int i * rows s) ((int i + 1) * rows s) sg
      = py_slice (int i * rows s) ((int i + 1) * rows s) sg'"
    if "i \<in> set [0..<nat (bands s)]" for i
  proof (rule py_slice_prefix [OF _ _ _ prefix])
    show "0 \<le> int i * rows s" using rows by simp
    show "0 \<le> (int i + 1) * rows s" using rows by simp
    have "int i + 1 \<le> bands s" using that by auto
    then have "(int i + 1) * rows s \<le> bands s * rows s"
      using rows by (rule mult_right_mono)
    then show "nat ((int i + 1) * rows s) \<le> nat (bands s * rows s)" by simp
  qed
  then show ?thesis
    using add_bands_same_buckets [OF a a'] by simp
qed


subsection \<open>More bands than bits\<close>

lemma py_slice_empty: "py_slice 0 0 xs = []"
  by (simp add: py_slice_def slice_index_def)

lemma add_bands_rows_zero:
  assumes "add_bands s fp sg is = Inr t" and "rows s = 0" and "distinct is"
  shows "length (hash_buckets_list t) = length (hash_buckets_list s)
       \<and> (\<forall>j < length (hash_buckets_list s).
             hash_buckets_list t ! j
               = (if j \<in> set is then bucket_append [] fp (hash_buckets_list s ! j)
                  else hash_buckets_list s ! j))"
  using assms
proof (induction "is" arbitrary: s)
  case Nil
  then show ?case by simp
next
  case (Cons i "is")
  let ?s1 = "s\<lparr>hash_buckets_list :=
      (hash_buckets_list s)[i := bucket_append [] fp (hash_buckets_list s ! i)]\<rparr>"
  from Cons.prems(1,2) have i: "i < length (hash_buckets_list s)" and
    r: "add_bands ?s1 fp sg is = Inr t"
    by (auto simp: py_slice_empty split: if_splits)
  have ih: "length (hash_buckets_list t) = length (hash_buckets_list ?s1)
       \<and> (\<forall>j < length (hash_buckets_list ?s1).
             hash_buckets_list t ! j
               = (if j \<in> set is then bucket_append [] fp (hash_buckets_list ?s1 ! j)
                  else hash_buckets_list ?s1 ! j))"
    using r
  proof (rule Cons.IH)
    show "rows ?s1 = 0" using Cons.prems(2) by simp
    show "distinct is" using Cons.prems(3) by simp
  qed
  have ni: "i \<notin> set is" using Cons.prems(3) by simp
  show ?case
  proof (intro conjI allI impI)
    show "length (hash_buckets_list t) = length (hash_buckets_list s)" using ih by simp
    fix j
    assume j: "j < length (hash_buckets_list s)"
    show "hash_buckets_list t ! j
        = (if j \<in> set (i # is) then bucket_append [] fp (hash_buckets_list s ! j)
           else hash_buckets_list s ! j)"
    proof (cases "j = i")
      case True
      with ih i ni show ?thesis by simp
    next
      case False
      with ih j show ?thesis by simp
    qed
  qed
qed

lemma add_signature_rows_zero:
  assumes "add_signature s fp (Some sg) = Inr t" and "rows s = 0"
    and "hash_buckets_list s = replicate (nat (bands s)) band"
  shows "hash_buckets_list t = replicate (nat (bands s)) (bucket_append [] fp band)"
proof -
  let ?s1 = "s\<lparr>signatures := AList.update fp (packbits sg) (signatures s)\<rparr>"
  have a: "add_bands ?s1 fp sg [0..<nat (bands s)] = Inr t"
    using assms(1) by (simp add: add_signature_def)
  from add_bands_rows_zero [OF a] assms(2,3) have
    len: "length (hash_buckets_list t) = nat (bands s)" and
    nth: "\<forall>j < nat (bands s). hash_buckets_list t ! j = bucket_append [] fp band"
    by simp_all
  show ?thesis
    using len nth by (intro nth_equalityI) simp_all
qed

lemma bucket_append_one_bucket:
  "bucket_append [] fp (if ids = [] then [] else [([], ids)])
     = (if ids @ [fp] = [] then [] else [([], ids @ [fp])])"
  by (simp add: bucket_append_def)

lemma add_all_rows_zero:
  assumes "add_all s adds = Inr t" and "rows s = 0"
    and "hash_buckets_list s
           = replicate (nat (bands s)) (if ids = [] then [] else [([], ids)])"
  shows "hash_buckets_list t
           = replicate (nat (bands s))
               (if ids @ stored_ids adds = [] then []
                else [([], ids @ stored_ids adds)])"
  using assms
proof (induction adds arbitrary: s ids)
  case Nil
  then show ?case by (simp add: stored_ids_def)
next
  case (Cons a adds)
  obtain fp sg_opt where a: "a = (fp, sg_opt)" by (cases a)
  from Cons.prems(1) a obtain s1 where
    s1: "add_signature s fp sg_opt = Inr s1" and r: "add_all s1 adds = Inr t"
    by (auto split: sum.splits)
  have f: "rows s1 = 0" "bands s1 = bands s"
    using add_signature_fields [OF s1] Cons.prems(2) by simp_all
  show ?case
  proof (cases sg_opt)
    case None
    with s1 have "s1 = s" by (simp add: add_signature_def)
    with Cons.IH [OF r f(1), of ids] Cons.prems(3) a None show ?thesis
      by (simp add: stored_ids_def)
  next
    case (Some sg)
    have "hash_buckets_list s1
        = replicate (nat (bands s1))
            (if ids @ [fp] = [] then [] else [([], ids @ [fp])])"
      using add_signature_rows_zero [OF s1 [unfolded Some] Cons.prems(2,3)] f(2)
      by (simp only: bucket_append_one_bucket)
    from Cons.IH [OF r f(1) this] f(2) a Some show ?thesis
      by (simp add: stored_ids_def)
  qed
qed

text \<open>
  Claim C10. For positive \<open>hash_size\<close> and \<open>bands\<close>, whether or not \<open>bands\<close> divides
  \<open>hash_size\<^sup>2\<close>: \<open>__init__\<close> returns, with \<open>rows\<close> the floor of \<open>hash_size\<^sup>2 / bands\<close>
  (so \<open>bands * rows \<le> hash_size\<^sup>2 < bands * (rows + 1)\<close>, with \<open>bands * rows <
  hash_size\<^sup>2\<close> when \<open>bands\<close> does not divide); every sequence of insertions returns;
  two signatures that agree on their first \<open>bands * rows\<close> bits, inserted under one id
  into one state, leave the same buckets; and when \<open>bands > hash_size\<^sup>2\<close>, \<open>rows\<close> is
  zero, every band key is the empty vector, and after any insertions each band holds one
  bucket with all stored ids in insertion order (no bucket when nothing was stored).
\<close>

theorem uneven_bands_insertion:
  assumes "0 < hs" and "0 < b"
  shows "\<exists>s0. lsh_init hs b = Inr s0
       \<and> rows s0 = hs ^ 2 div b
       \<and> b * rows s0 \<le> hs ^ 2 \<and> hs ^ 2 < b * (rows s0 + 1)
       \<and> (\<not> b dvd hs ^ 2 \<longrightarrow> b * rows s0 < hs ^ 2)
       \<and> (\<forall>adds. \<exists>s. add_all s0 adds = Inr s)
       \<and> (\<forall>adds s file_path sg sg' t t'.
             add_all s0 adds = Inr s \<longrightarrow>
             take (nat (b * rows s0)) sg = take (nat (b * rows s0)) sg' \<longrightarrow>
             add_signature s file_path (Some sg) = Inr t \<longrightarrow>
             add_signature s file_path (Some sg') = Inr t' \<longrightarrow>
             hash_buckets_list t = hash_buckets_list t')
       \<and> (hs ^ 2 < b \<longrightarrow>
             rows s0 = 0
             \<and> (\<forall>i sg. py_slice (int i * rows s0) ((int i + 1) * rows s0) sg = [])
             \<and> (\<forall>adds s. add_all s0 adds = Inr s \<longrightarrow>
                   hash_buckets_list s
                     = replicate (nat b)
                         (if stored_ids adds = [] then [] else [([], stored_ids adds)])))"
proof -
  from assms obtain s0 where s0: "lsh_init hs b = Inr s0"
    by (auto simp: lsh_init_def)
  note f = lsh_init_fields [OF s0]
  have rows: "rows s0 = hs ^ 2 div b" using f by simp
  have nn: "0 \<le> rows s0" unfolding rows using assms by (simp add: pos_imp_zdiv_nonneg_iff)
  have eq: "hs ^ 2 = b * rows s0 + hs ^ 2 mod b" unfolding rows by simp
  have m0: "0 \<le> hs ^ 2 mod b" and m1: "hs ^ 2 mod b < b" using assms(2) by simp_all
  have lo: "b * rows s0 \<le> hs ^ 2" using eq m0 by linarith
  have "b * (rows s0 + 1) = b * rows s0 + b" by (simp add: distrib_left)
  then have hi: "hs ^ 2 < b * (rows s0 + 1)" using eq m1 by linarith
  have strict: "b * rows s0 < hs ^ 2" if "\<not> b dvd hs ^ 2"
  proof -
    have "hs ^ 2 mod b \<noteq> 0" using that by (simp add: dvd_eq_mod_eq_0)
    with m0 have "0 < hs ^ 2 mod b" by simp
    with eq show ?thesis by linarith
  qed
  have len: "length (hash_buckets_list s0) = nat (bands s0)" using f by simp
  have ret: "\<exists>s. add_all s0 adds = Inr s" for adds
    using add_all_returns [OF len] by blast
  have pre: "hash_buckets_list t = hash_buckets_list t'"
    if "add_all s0 adds = Inr s"
      and "take (nat (b * rows s0)) sg = take (nat (b * rows s0)) sg'"
      and "add_signature s fp (Some sg) = Inr t" and "add_signature s fp (Some sg') = Inr t'"
    for adds s fp sg sg' t t'
  proof -
    have g: "rows s = rows s0" "bands s = b" using add_all_fields [OF that(1)] f by simp_all
    show ?thesis
      using that(3,4)
    proof (rule add_signature_prefix)
      show "0 \<le> rows s" using nn g by simp
      show "take (nat (bands s * rows s)) sg = take (nat (bands s * rows s)) sg'"
        using that(2) g by simp
    qed
  qed
  have many: "rows s0 = 0
      \<and> (\<forall>i sg. py_slice (int i * rows s0) ((int i + 1) * rows s0) sg = [])
      \<and> (\<forall>adds s. add_all s0 adds = Inr s \<longrightarrow>
            hash_buckets_list s
              = replicate (nat b)
                  (if stored_ids adds = [] then [] else [([], stored_ids adds)]))"
    if "hs ^ 2 < b"
  proof -
    have z: "rows s0 = 0" unfolding rows using that assms by (simp add: div_pos_pos_trivial)
    have "hash_buckets_list s0
        = replicate (nat (bands s0)) (if ([]::image_id list) = [] then [] else [([], [])])"
      using f by simp
    then have "hash_buckets_list s
        = replicate (nat (bands s0))
            (if [] @ stored_ids adds = [] then [] else [([], [] @ stored_ids adds)])"
      if "add_all s0 adds = Inr s" for adds s
      using add_all_rows_zero [OF that z] by blast
    then show ?thesis using z f by (simp add: py_slice_empty)
  qed
  from s0 rows lo hi strict ret pre many show ?thesis by blast
qed


theorem uneven_bands_insertion_witness:
  "lsh_init 2 3 = Inr example_uneven
   \<and> rows example_uneven = 1
   \<and> 3 * rows example_uneven < 2 ^ 2
   \<and> add_signature example_uneven ''x'' (Some [True, False, True, False])
       = Inr (example_uneven
                \<lparr>hash_buckets_list :=
                   [[([True], [''x''])], [([False], [''x''])], [([True], [''x''])]],
                 signatures := [(''x'', [160])]\<rparr>)
   \<and> add_signature example_uneven ''x'' (Some [True, False, True, True])
       = Inr (example_uneven
                \<lparr>hash_buckets_list :=
                   [[([True], [''x''])], [([False], [''x''])], [([True], [''x''])]],
                 signatures := [(''x'', [176])]\<rparr>)
   \<and> lsh_init 2 5 = Inr example_many_bands
   \<and> rows example_many_bands = 0
   \<and> add_all example_many_bands example_adds
       = Inr (example_many_bands
                \<lparr>hash_buckets_list := replicate 5 [([], [''a'', ''b'', ''c''])],
                 signatures := [(''a'', [48]), (''b'', [240]), (''c'', [192])]\<rparr>)"
proof -
  have i3: "lsh_init 2 3 = Inr example_uneven" by code_simp
  have i5: "lsh_init 2 5 = Inr example_many_bands" by code_simp
  have p2: "(0::int) < 2" and p3: "(0::int) < 3" and p5: "(0::int) < 5" by simp_all
  from uneven_bands_insertion [OF p2 p3] obtain s3 where
    s3: "lsh_init 2 3 = Inr s3" and
    r3: "rows s3 = 2 ^ 2 div 3" and
    l3: "\<not> (3::int) dvd 2 ^ 2 \<longrightarrow> 3 * rows s3 < 2 ^ 2"
    by blast
  have e3: "s3 = example_uneven" using s3 i3 by simp
  have rows3: "rows example_uneven = 1" using r3 unfolding e3 by simp
  have less3: "3 * rows example_uneven < 2 ^ 2" using l3 unfolding e3 by simp
  have t: "add_signature example_uneven ''x'' (Some [True, False, True, False])
       = Inr (example_uneven
                \<lparr>hash_buckets_list :=
                   [[([True], [''x''])], [([False], [''x''])], [([True], [''x''])]],
                 signatures := [(''x'', [160])]\<rparr>)"
    by code_simp
  have t': "add_signature example_uneven ''x'' (Some [True, False, True, True])
       = Inr (example_uneven
                \<lparr>hash_buckets_list :=
                   [[([True], [''x''])], [([False], [''x''])], [([True], [''x''])]],
                 signatures := [(''x'', [176])]\<rparr>)"
    by code_simp
  from uneven_bands_insertion [OF p2 p5] obtain s5 where
    s5: "lsh_init 2 5 = Inr s5" and
    r5: "2 ^ 2 < (5::int) \<longrightarrow> rows s5 = 0"
    by blast
  have e5: "s5 = example_many_bands" using s5 i5 by simp
  have rows5: "rows example_many_bands = 0" using r5 unfolding e5 by simp
  have sv: "add_all example_many_bands example_adds
       = Inr (example_many_bands
                \<lparr>hash_buckets_list := replicate 5 [([], [''a'', ''b'', ''c''])],
                 signatures := [(''a'', [48]), (''b'', [240]), (''c'', [192])]\<rparr>)"
    by code_simp
  from i3 rows3 less3 t t' i5 rows5 sv show ?thesis by blast
qed

section \<open>Two runs on the same input\<close>

lemma map_of_shift:
  "map_of (map (\<lambda>(x, l). (x, l + c)) al) k = map_option (\<lambda>l. l + (c::int)) (map_of al k)"
  by (induction al) auto

lemma update_shift:
  "AList.update k (v + c) (map (\<lambda>(x, l). (x, l + (c::int))) al)
     = map (\<lambda>(x, l). (x, l + c)) (AList.update k v al)"
  by (induction al) auto

lemma has_key_shift:
  "has_key k (map (\<lambda>(x, l). (x, l + (c::int))) al) = has_key k al"
  by (simp add: has_key_def map_of_shift)

lemma calculate_similarity_shift:
  "calculate_similarity (shift_labels c s) p
     = map_sum id (\<lambda>(r, t). (r, shift_labels c t)) (calculate_similarity s p)"
  by (auto simp: calculate_similarity_def shift_labels_def
      split: prod.splits option.splits)

lemma label_pair_shift:
  "label_pair threshold collect_scores r (shift_labels c s)
     = map_sum id (shift_labels c) (label_pair threshold collect_scores r s)"
proof -
  obtain a b sim where r: "r = (a, b, sim)" by (cases r) auto
  show ?thesis
    unfolding r label_pair_def shift_labels_def
    by (auto simp: has_key_shift map_of_shift update_shift Let_def has_key_def
        update_conv' split: option.splits)
qed


lemma walk_pairs_shift:
  "walk_pairs threshold collect_scores (shift_labels c s) pairs
     = map_sum id (shift_labels c) (walk_pairs threshold collect_scores s pairs)"
proof (induction pairs arbitrary: s)
  case Nil
  show ?case by simp
next
  case (Cons p pairs)
  show ?case
  proof (cases "calculate_similarity s p")
    case (Inl e)
    then show ?thesis by (simp add: calculate_similarity_shift)
  next
    case (Inr rs)
    obtain r s1 where rs: "rs = (r, s1)" by (cases rs)
    show ?thesis
    proof (cases "label_pair threshold collect_scores r s1")
      case (Inl e)
      with Inr rs show ?thesis by (simp add: calculate_similarity_shift label_pair_shift)
    next
      case (Inr s2)
      with \<open>calculate_similarity s p = Inr rs\<close> rs Cons [of s2] show ?thesis
        by (simp add: calculate_similarity_shift label_pair_shift)
    qed
  qed
qed

lemma walk_buckets_shift:
  "walk_buckets threshold collect_scores (shift_labels c s) buckets
     = map_sum id (shift_labels c) (walk_buckets threshold collect_scores s buckets)"
proof (induction buckets arbitrary: s)
  case Nil
  show ?case by simp
next
  case (Cons bucket buckets)
  obtain key ms where b: "bucket = (key, ms)" by (cases bucket)
  show ?case
  proof (cases "1 < length ms")
    case True
    show ?thesis
    proof (cases "walk_pairs threshold collect_scores s (zip ms (tl ms))")
      case (Inl e)
      with b True show ?thesis by (simp add: walk_pairs_shift)
    next
      case (Inr s1)
      with b True Cons [of s1] show ?thesis by (simp add: walk_pairs_shift)
    qed
  next
    case False
    with b Cons [of s] show ?thesis by simp
  qed
qed

lemma walk_bands_shift:
  "walk_bands threshold collect_scores (shift_labels c s) bs
     = map_sum id (shift_labels c) (walk_bands threshold collect_scores s bs)"
proof (induction bs arbitrary: s)
  case Nil
  show ?case by simp
next
  case (Cons band bs)
  show ?case
  proof (cases "walk_buckets threshold collect_scores s band")
    case (Inl e)
    then show ?thesis by (simp add: walk_buckets_shift)
  next
    case (Inr s1)
    with Cons [of s1] show ?thesis by (simp add: walk_buckets_shift)
  qed
qed

lemma label_remaining_shift:
  "label_remaining fp (shift_labels c s) = shift_labels c (label_remaining fp s)"
  by (simp add: label_remaining_def shift_labels_def has_key_shift update_shift)

lemma label_all_remaining_shift:
  "label_all_remaining (shift_labels c s) fps = shift_labels c (label_all_remaining s fps)"
  by (induction fps arbitrary: s) (simp_all add: label_remaining_shift)

lemma assign_labels_shift:
  "assign_labels threshold (shift_labels c s)
     = map_sum id (\<lambda>(lbls, t). (map (\<lambda>(x, l). (x, l + c)) lbls, shift_labels c t))
         (assign_labels threshold s)"
proof -
  have f: "hash_buckets_list (shift_labels c s) = hash_buckets_list s"
    "signatures (shift_labels c t) = signatures t"
    "labels (shift_labels c t) = map (\<lambda>(x, l). (x, l + c)) (labels t)" for t
    by (simp_all add: shift_labels_def)
  show ?thesis
  proof (cases "walk_bands threshold False s (hash_buckets_list s)")
    case (Inl e)
    then show ?thesis
      by (simp add: assign_labels_def process_similarities_def walk_bands_shift f)
  next
    case (Inr s1)
    then show ?thesis
      by (simp add: assign_labels_def process_similarities_def walk_bands_shift f
          assign_labels_remaining_images_def label_all_remaining_shift Let_def)
  qed
qed

lemma same_grouping_shift: "same_grouping l1 (map (\<lambda>(x, l). (x, l + (c::int))) l1)"
proof -
  have "fst ` set l1 = fst ` set (map (\<lambda>(x, l). (x, l + c)) l1)" by force
  moreover have "map_of l1 x = map_of l1 y
      \<longleftrightarrow> map_option (\<lambda>l. l + c) (map_of l1 x) = map_option (\<lambda>l. l + c) (map_of l1 y)"
    for x y
    by (cases "map_of l1 x"; cases "map_of l1 y") auto
  ultimately show ?thesis unfolding same_grouping_def map_of_shift by blast
qed

text \<open>
  Claim C3. Two processors are built from the same \<open>hash_size\<close> and \<open>bands\<close> by the same
  sequence of insertions, and labelled with the same threshold; the second run may start
  its label counter at any value \<open>c\<close> (the code starts it at 0). If the first run
  returns the mapping \<open>l1\<close>, the second run returns as well; its mapping is \<open>l1\<close> with
  \<open>c\<close> added to every label, so the two mappings have the same ids and group them in
  the same way, and they are equal for \<open>c = 0\<close>.
\<close>

theorem same_input_same_grouping:
  assumes first: "lsh_init hs b = Inr n1" "add_all n1 adds = Inr s1"
      "assign_labels threshold s1 = Inr (l1, t1)"
    and second: "lsh_init hs b = Inr n2" "add_all n2 adds = Inr s2"
  shows "\<exists>l2 t2. assign_labels threshold (s2\<lparr>label_counter := c\<rparr>) = Inr (l2, t2)
       \<and> l2 = map (\<lambda>(x, l). (x, l + c)) l1
       \<and> same_grouping l1 l2
       \<and> (c = 0 \<longrightarrow> l2 = l1)"
proof -
  have eq: "s2 = s1" using first(1,2) second by simp
  have "labels s1 = []" "label_counter s1 = 0"
    using built_labels_empty [OF first(1,2)] by simp_all
  then have sh: "s2\<lparr>label_counter := c\<rparr> = shift_labels c s1"
    unfolding eq by (simp add: shift_labels_def)
  have run: "assign_labels threshold (s2\<lparr>label_counter := c\<rparr>)
      = Inr (map (\<lambda>(x, l). (x, l + c)) l1, shift_labels c t1)"
    unfolding sh assign_labels_shift first(3) by simp
  have "c = 0 \<longrightarrow> map (\<lambda>(x, l). (x, l + c)) l1 = l1" by (simp add: case_prod_unfold)
  with run same_grouping_shift [of l1 c] show ?thesis by blast
qed

theorem same_input_same_grouping_witness:
  "lsh_init 2 2 = Inr example_new
   \<and> add_all example_new example_adds = Inr example_store
   \<and> assign_labels (1 / 2) example_store = Inr (labels example_done, example_done)
   \<and> (\<exists>t2. assign_labels (1 / 2) (example_store\<lparr>label_counter := 7\<rparr>)
             = Inr ([(''b'', 7), (''c'', 7), (''a'', 8)], t2))
   \<and> same_grouping (labels example_done) [(''b'', 7), (''c'', 7), (''a'', 8)]
   \<and> (\<exists>t2. assign_labels (1 / 2) (example_store\<lparr>label_counter := 0\<rparr>)
             = Inr (labels example_done, t2))"
proof -
  have run: "assign_labels (1 / 2) example_store = Inr (labels example_done, example_done)"
    by code_simp
  have m: "map (\<lambda>(x, l). (x, l + 7)) (labels example_done)
      = [(''b'', 7), (''c'', 7), (''a'', 8)]"
    by code_simp
  from same_input_same_grouping
    [OF example_init example_add_all run example_init example_add_all, of 7] m
  have "\<exists>t2. assign_labels (1 / 2) (example_store\<lparr>label_counter := 7\<rparr>)
             = Inr ([(''b'', 7), (''c'', 7), (''a'', 8)], t2)"
    and "same_grouping (labels example_done) [(''b'', 7), (''c'', 7), (''a'', 8)]"
    by auto
  moreover from same_input_same_grouping
    [OF example_init example_add_all run example_init example_add_all, of 0]
  have "\<exists>t2. assign_labels (1 / 2) (example_store\<lparr>label_counter := 0\<rparr>)
             = Inr (labels example_done, t2)"
    by auto
  ultimately show ?thesis using example_init example_add_all run by blast
qed

section \<open>Every stored id is labelled once\<close>

lemma label_remaining_labelled:
  "map_of (labels s) fp \<noteq> None \<Longrightarrow> label_remaining fp s = s"
  by (simp add: label_remaining_def has_key_def)

lemma label_all_remaining_labelled:
  "\<forall>fp \<in> set fps. map_of (labels s) fp \<noteq> None \<Longrightarrow> label_all_remaining s fps = s"
  by (induction fps) (simp_all add: label_remaining_labelled)

lemma assign_labels_keys:
  assumes "lsh_init hs b = Inr s0" and "add_all s0 adds = Inr s"
    and run: "assign_labels threshold s = Inr (lbls, s')"
  shows "fst ` set lbls = fst ` set (signatures s)"
    and "signatures s' = signatures s" and "lbls = labels s'"
proof -
  from run obtain s1 where
    p: "walk_bands threshold False s (hash_buckets_list s) = Inr s1" and
    s': "s' = label_all_remaining s1 (map fst (signatures s1))" and l: "lbls = labels s'"
    by (auto simp: assign_labels_def process_similarities_def
        assign_labels_remaining_images_def Let_def split: sum.splits)
  show "lbls = labels s'" by (rule l)
  have sig: "signatures s1 = signatures s"
    using walk_bands_extension [OF p] by (simp add: label_extension_def same_store_def)
  have "same_store s1 s'"
    unfolding s' using label_all_remaining_extension [of s1] by (simp add: label_extension_def)
  with sig show "signatures s' = signatures s" by (simp add: same_store_def)
  have "fst ` set (labels s1) \<subseteq> bucket_members (hash_buckets_list s)"
    using walk_bands_keys [OF p] built_labels_empty(1) [OF assms(1,2)] by simp
  then have "fst ` set (labels s1) \<subseteq> fst ` set (signatures s)"
    using built_keys(2) [OF assms(1,2)] by blast
  then show "fst ` set lbls = fst ` set (signatures s)"
    unfolding l s' label_all_remaining_keys sig by auto
qed

text \<open>
  Claim C9. Take a processor \<open>s\<close> as \<open>__init__\<close> and any insertions leave it, a state \<open>u\<close>
  reached from it in the course of the label resolution, and a state \<open>t\<close> reached later.
  Every label of \<open>u\<close> is still the label of the same id in \<open>t\<close>; every label of \<open>u\<close> is
  below the counter of \<open>u\<close>; a label that \<open>t\<close> gives to an id unlabelled in \<open>u\<close> is a
  label already in use in \<open>u\<close> (inherited) or is at least the counter of \<open>u\<close>, hence
  greater than every label issued before. At the two places where the counter is drawn
  (the first branch of the pair step, and the step for a remaining image) the label
  given is the counter itself, and the counter goes up by one.

  Every id does become labelled. In \<open>s\<close> no stored id has a label; whenever
  \<open>assign_labels\<close> returns, its end state is a later state of \<open>s\<close>, the returned mapping
  is the label dictionary of that state, every stored id has a label in it and no other
  id has one, and the state is terminal: \<open>_assign_labels_remaining_images\<close> run on it
  again changes nothing. On valid signatures with \<open>hash_size\<close> not zero,
  \<open>assign_labels\<close> returns. From any state \<open>u\<close> of the run,
  \<open>_assign_labels_remaining_images\<close> leads to a later state in which every stored id
  has a label.
\<close>

theorem labels_final_and_fresh_labels_increase:
  assumes "lsh_init hs b = Inr s0" and "add_all s0 adds = Inr s"
    and "later s u" and "later u t"
  shows "(\<forall>x l. map_of (labels u) x = Some l \<longrightarrow> map_of (labels t) x = Some l)
       \<and> (\<forall>x l. map_of (labels u) x = Some l \<longrightarrow> l < label_counter u)
       \<and> (\<forall>x l. map_of (labels u) x = None \<longrightarrow> map_of (labels t) x = Some l \<longrightarrow>
             (\<exists>y. map_of (labels u) y = Some l) \<or> label_counter u \<le> l)
       \<and> label_counter u \<le> label_counter t
       \<and> (\<forall>file_path. map_of (labels u) file_path = None \<longrightarrow>
             map_of (labels (label_remaining file_path u)) file_path = Some (label_counter u)
             \<and> label_counter (label_remaining file_path u) = label_counter u + 1)
       \<and> (\<forall>threshold collect_scores img_a img_b similarity v.
             map_of (labels u) img_a = None \<longrightarrow> threshold \<le> similarity \<longrightarrow>
             label_pair threshold collect_scores (img_a, img_b, similarity) u = Inr v \<longrightarrow>
             map_of (labels v) img_a = Some (label_counter u)
             \<and> label_counter v = label_counter u + 1)
       \<and> (\<forall>threshold lbls s'.
             assign_labels threshold s = Inr (lbls, s') \<longrightarrow>
             later s s' \<and> lbls = labels s'
             \<and> (\<forall>x. x \<in> fst ` set (signatures s) \<longrightarrow>
                    map_of (labels s) x = None \<and> (\<exists>l. map_of lbls x = Some l))
             \<and> (\<forall>x l. map_of lbls x = Some l \<longrightarrow> x \<in> fst ` set (signatures s))
             \<and> assign_labels_remaining_images s' = s')
       \<and> (\<forall>threshold. valid_adds hs adds \<and> hs \<noteq> 0 \<longrightarrow>
             (\<exists>lbls s'. assign_labels threshold s = Inr (lbls, s')))
       \<and> later u (assign_labels_remaining_images u)
       \<and> (\<forall>x. x \<in> fst ` set (signatures u) \<longrightarrow>
             (\<exists>l. map_of (labels (assign_labels_remaining_images u)) x = Some l))"
proof -
  have empty: "labels s = []" using built_labels_empty(1) [OF assms(1,2)] .
  have "labels_below_counter s"
    using built_labels_empty [OF assms(1,2)] by (simp add: labels_below_counter_def)
  with later_extension [OF assms(3)] have inv: "labels_below_counter u"
    by (simp add: label_extension_def)
  have ext: "label_extension u t" using assms(4) by (rule later_extension)
  have rem: "map_of (labels (label_remaining fp u)) fp = Some (label_counter u)
             \<and> label_counter (label_remaining fp u) = label_counter u + 1"
    if "map_of (labels u) fp = None" for fp
    using that by (simp add: label_remaining_def has_key_def update_conv')
  have pair: "map_of (labels v) a = Some (label_counter u)
             \<and> label_counter v = label_counter u + 1"
    if "map_of (labels u) a = None" and "thr \<le> sim"
      and "label_pair thr cs (a, b', sim) u = Inr v" for thr cs a b' sim v
    using that
    by (auto simp: label_pair_def has_key_def update_conv' Let_def
        split: if_splits option.splits)
  have first: "(\<forall>x l. map_of (labels u) x = Some l \<longrightarrow> map_of (labels t) x = Some l)
       \<and> (\<forall>x l. map_of (labels u) x = Some l \<longrightarrow> l < label_counter u)
       \<and> (\<forall>x l. map_of (labels u) x = None \<longrightarrow> map_of (labels t) x = Some l \<longrightarrow>
             (\<exists>y. map_of (labels u) y = Some l) \<or> label_counter u \<le> l)
       \<and> label_counter u \<le> label_counter t"
    using inv ext unfolding label_extension_def labels_below_counter_def by blast
  have run: "later s s' \<and> lbls = labels s'
      \<and> (\<forall>x. x \<in> fst ` set (signatures s) \<longrightarrow>
             map_of (labels s) x = None \<and> (\<exists>l. map_of lbls x = Some l))
      \<and> (\<forall>x l. map_of lbls x = Some l \<longrightarrow> x \<in> fst ` set (signatures s))
      \<and> assign_labels_remaining_images s' = s'"
    if r: "assign_labels thr s = Inr (lbls, s')" for thr lbls s'
  proof -
    note k = assign_labels_keys [OF assms(1,2) r]
    have lt: "later s s'" using assign_labels_later [OF r] by simp
    have in_keys: "x \<in> fst ` set (signatures s)" if "map_of lbls x = Some l" for x l
    proof -
      from that have "map_of lbls x \<noteq> None" by simp
      then have "x \<in> fst ` set lbls" by (simp add: map_of_eq_None_iff)
      with k(1) show ?thesis by simp
    qed
    have labelled: "\<exists>l. map_of lbls x = Some l" if "x \<in> fst ` set (signatures s)" for x
    proof -
      from that k(1) have "x \<in> fst ` set lbls" by simp
      then have "map_of lbls x \<noteq> None" by (simp add: map_of_eq_None_iff)
      then show ?thesis by auto
    qed
    have "\<forall>fp \<in> set (map fst (signatures s')). map_of (labels s') fp \<noteq> None"
      using labelled k(2,3) by auto
    then have "assign_labels_remaining_images s' = s'"
      unfolding assign_labels_remaining_images_def by (rule label_all_remaining_labelled)
    with lt k(3) in_keys labelled empty show ?thesis by simp
  qed
  have ret: "\<exists>lbls s'. assign_labels thr s = Inr (lbls, s')"
    if "valid_adds hs adds \<and> hs \<noteq> 0" for thr
  proof -
    from that have "valid_store s" and "hash_size s \<noteq> 0"
      using built_valid_store [OF assms(1,2)] by simp_all
    then show ?thesis by (rule assign_labels_returns)
  qed
  have lr: "later u (assign_labels_remaining_images u)"
    unfolding assign_labels_remaining_images_def by (rule later_remaining)
  have all: "\<exists>l. map_of (labels (assign_labels_remaining_images u)) x = Some l"
    if "x \<in> fst ` set (signatures u)" for x
  proof -
    from that have "x \<in> fst ` set (labels (assign_labels_remaining_images u))"
      unfolding assign_labels_remaining_images_def label_all_remaining_keys by simp
    then have "map_of (labels (assign_labels_remaining_images u)) x \<noteq> None"
      by (simp add: map_of_eq_None_iff)
    then show ?thesis by auto
  qed
  show ?thesis
    apply (intro conjI)
    using first rem pair run ret lr all by blast+
qed


theorem labels_final_and_fresh_labels_increase_witness:
  "lsh_init 2 2 = Inr example_new
   \<and> add_all example_new example_adds = Inr example_store
   \<and> walk_bands (1 / 2) False example_store [hd (hash_buckets_list example_store)]
       = Inr example_first_band
   \<and> walk_bands (1 / 2) False example_first_band (tl (hash_buckets_list example_store))
       = Inr example_done
   \<and> map_of (labels example_first_band) ''b'' = Some 0
   \<and> map_of (labels example_done) ''b'' = Some 0
   \<and> map_of (labels example_first_band) ''a'' = None
   \<and> map_of (labels example_done) ''a'' = Some 1
   \<and> label_counter example_first_band \<le> 1
   \<and> valid_adds 2 example_adds
   \<and> assign_labels 1 example_store = Inr (labels example_singletons, example_singletons)
   \<and> map_of (labels example_store) ''c'' = None
   \<and> map_of (labels example_singletons) ''c'' = Some 2
   \<and> assign_labels_remaining_images example_singletons = example_singletons
   \<and> map_of (labels (assign_labels_remaining_images example_first_band)) ''a'' = Some 1"
proof -
  have w1: "walk_bands (1 / 2) False example_store [hd (hash_buckets_list example_store)]
      = Inr example_first_band"
    by code_simp
  have w2: "walk_bands (1 / 2) False example_first_band (tl (hash_buckets_list example_store))
      = Inr example_done"
    by code_simp
  have l1: "later example_store example_first_band" using w1 by (rule later_bands)
  have l2: "later example_first_band example_done" using w2 by (rule later_bands)
  note claim = labels_final_and_fresh_labels_increase [OF example_init example_add_all l1 l2]
  note keep = claim [THEN conjunct1]
  note fresh = claim [THEN conjunct2, THEN conjunct2, THEN conjunct1]
  note whole = claim [THEN conjunct2, THEN conjunct2, THEN conjunct2, THEN conjunct2,
      THEN conjunct2, THEN conjunct2, THEN conjunct1]
  have b: "map_of (labels example_first_band) ''b'' = Some 0" by code_simp
  have a: "map_of (labels example_first_band) ''a'' = None" by code_simp
  have a': "map_of (labels example_done) ''a'' = Some 1" by code_simp
  have b': "map_of (labels example_done) ''b'' = Some 0"
    using keep [THEN spec, THEN spec, THEN mp, OF b] .
  have "(\<exists>y. map_of (labels example_first_band) y = Some 1)
         \<or> label_counter example_first_band \<le> 1"
    using fresh [THEN spec, THEN spec, THEN mp, THEN mp, OF a a'] .
  moreover have "\<not> (\<exists>y. map_of (labels example_first_band) y = Some 1)"
    by (auto simp: example_first_band_def split: if_splits)
  ultimately have c1: "label_counter example_first_band \<le> 1" by blast
  have va: "valid_adds 2 example_adds" by code_simp
  have run: "assign_labels 1 example_store
      = Inr (labels example_singletons, example_singletons)"
    by code_simp
  have key: "''c'' \<in> fst ` set (signatures example_store)"
    by (simp add: example_store_def)
  note ended = whole [THEN spec, THEN spec, THEN spec, THEN mp, OF run]
  have c0: "map_of (labels example_store) ''c'' = None"
    using ended [THEN conjunct2, THEN conjunct2, THEN conjunct1, THEN spec, THEN mp, OF key]
    by (rule conjunct1)
  have terminal: "assign_labels_remaining_images example_singletons = example_singletons"
    using ended [THEN conjunct2, THEN conjunct2, THEN conjunct2, THEN conjunct2] .
  have c2: "map_of (labels example_singletons) ''c'' = Some 2" by code_simp
  have r1: "map_of (labels (assign_labels_remaining_images example_first_band)) ''a''
      = Some 1"
    by code_simp
  show ?thesis
    by (intro conjI)
      (rule example_init example_add_all w1 w2 b b' a a' c1 va run c0 c2 terminal r1)+
qed

end
